theory Spec2Isabelle
  imports Main "HOL-Library.Product_Lexorder"
begin

section \<open>The norostat diff store: data model\<close>

text \<open>
  The embedding follows \<^verbatim>\<open>src/acquisition/norostat/norostat_sql.py\<close>. Every SQL table is
  a list of rows, every SQL statement a function on the tables, every exception a value.

  A version is the pair \<open>(release_date, parse_time)\<close>; MySQL compares row values
  \<open>(a, b) <= (c, d)\<close> lexicographically, which is the order of pairs used here. Dates
  and timestamps are natural numbers (days, microseconds). A string is a list of
  characters.

  The source leaves to the MySQL server how two strings compare, what becomes of a
  string longer than its column and how an integer is stored. These are the fields of
  the record \<open>server\<close>, and every statement takes the server as an argument:
  \<^item> \<open>weight\<close> is the collation of the \<open>NVARCHAR\<close> columns: the server finds two
    strings equal exactly when their weights are equal (for \<open>utf8_general_ci\<close> the
    weight ignores letter case and trailing spaces; for a binary collation it is the
    string itself);
  \<^item> \<open>truncates s\<close> tells whether a string \<open>s\<close> of more than 255 characters is cut to
    255 characters and stored (any string when the SQL mode is not strict, a string whose
    excess is spaces in strict mode) or refused with \<open>DataError\<close>;
  \<^item> \<open>out_of_range n\<close> is what an \<open>INT\<close> column makes of an integer outside its range:
    the value it stores in its place, or the error;
  \<^item> \<open>int_text n\<close> is the text an \<open>NVARCHAR(255)\<close> column stores for the integer
    parameter \<open>n\<close>, or the error.
\<close>

datatype error =
    IntegrityError
  | DataError
  | ProgrammingError
  | VersionException
  | ValueError
  | TypeError

record server =
  weight :: "string \<Rightarrow> string"
  truncates :: "string \<Rightarrow> bool"
  out_of_range :: "int \<Rightarrow> error + int"
  int_text :: "int \<Rightarrow> error + string"

type_synonym version = "nat \<times> nat"
type_synonym cell = "nat \<times> nat \<times> nat"
type_synonym diff_row = "version \<times> cell \<times> string option"
type_synonym state_row = "cell \<times> string"
type_synonym parsed_row = "string \<times> string \<times> string \<times> string"
type_synonym pool = "(nat \<times> string) list"
type_synonym point_row = "version \<times> nat \<times> int \<times> string option"
type_synonym long_raw = "(string \<times> string \<times> string) list \<times> nat \<times> nat \<times> string"

text \<open>
  \<open>diff_row\<close> is a row of \<open>norostat_raw_datatable_diffs\<close>:
  \<open>((release_date, parse_time), (measurement_type_id, location_id, week_id), new_value)\<close>,
  where \<open>None\<close> is SQL \<open>NULL\<close>, "removed". \<open>parsed_row\<close> is a row of the temporary
  table \<open>norostat_raw_datatable_parsed\<close>: \<open>(measurement_type, location, week, value)\<close>.
  \<open>state_row\<close> is a row of the temporary tables \<open>norostat_raw_datatable_previous\<close> and
  \<open>norostat_raw_datatable_next\<close>. A \<open>pool\<close> row is \<open>(id, text)\<close>. \<open>point_row\<close> is a row
  of \<open>norostat_point_diffs\<close>: \<open>((release_date, parse_time), location_id, epiweek, new_value)\<close>.
  \<open>long_raw\<close> is the argument of \<open>record_long_raw\<close>: the rows
  \<open>(week, measurement_type, value)\<close> of the data frame after \<open>astype(str)\<close>, then
  \<open>release_date\<close>, \<open>parse_time\<close>, \<open>location\<close>. The two point tables are created by
  \<open>record_long_raw\<close>, not by \<open>ensure_tables_exist\<close>: \<open>None\<close> means the table does not
  exist.
\<close>

record db =
  raw_version_list :: "version list"
  measurement_type_pool :: pool
  location_pool :: pool
  week_pool :: pool
  raw_diffs :: "diff_row list"
  point_version_list :: "version list option"
  point_diffs :: "point_row list option"

definition empty_db :: db where
  "empty_db = \<lparr> raw_version_list = [], measurement_type_pool = [], location_pool = [],
     week_pool = [], raw_diffs = [], point_version_list = None, point_diffs = None \<rparr>"

definition bind :: "error + 'a \<Rightarrow> ('a \<Rightarrow> error + 'b) \<Rightarrow> error + 'b" where
  "bind m f = (case m of Inl e \<Rightarrow> Inl e | Inr x \<Rightarrow> f x)"

definition version_of :: "diff_row \<Rightarrow> version" where
  "version_of r = fst r"

definition cell_of :: "diff_row \<Rightarrow> cell" where
  "cell_of r = fst (snd r)"

definition new_value :: "diff_row \<Rightarrow> string option" where
  "new_value r = snd (snd r)"

text \<open>What an \<open>NVARCHAR(255)\<close> column stores for a string, or the error.\<close>

definition nvarchar255 :: "server \<Rightarrow> string \<Rightarrow> error + string" where
  "nvarchar255 srv s =
     (if length s \<le> 255 then Inr s
      else if truncates srv s then Inr (take 255 s)
      else Inl DataError)"

section \<open>Interning pools\<close>

text \<open>
  \<open>pool_id\<close> is the join of a text with a pool (\<open>USING (text)\<close>): the id of the pool row
  whose text the server finds equal. \<open>pool_text\<close> is the join of an id with a pool
  (\<open>USING (id)\<close>).
\<close>

fun pool_id :: "server \<Rightarrow> pool \<Rightarrow> string \<Rightarrow> nat option" where
  "pool_id srv [] s = None"
| "pool_id srv ((i, t) # p) s = (if weight srv t = weight srv s then Some i else pool_id srv p s)"

fun pool_text :: "pool \<Rightarrow> nat \<Rightarrow> string option" where
  "pool_text [] i = None"
| "pool_text ((j, t) # p) i = (if j = i then Some t else pool_text p i)"

text \<open>
  \<open>AUTO_INCREMENT\<close>: a new row gets an id greater than every id of the table; the model
  takes the least such id.
\<close>

definition auto_increment :: "pool \<Rightarrow> nat" where
  "auto_increment p = Suc (fold max (map fst p) 0)"

fun pool_insert_all :: "pool \<Rightarrow> string list \<Rightarrow> pool" where
  "pool_insert_all p [] = p"
| "pool_insert_all p (s # ss) = pool_insert_all (p @ [(auto_increment p, s)]) ss"

text \<open>
  \<open>SELECT DISTINCT\<close> keeps one text of every class of texts that the server finds equal;
  SQL does not say which, the model keeps the last.
\<close>

fun select_distinct :: "server \<Rightarrow> string list \<Rightarrow> string list" where
  "select_distinct srv [] = []"
| "select_distinct srv (x # xs) =
     (if weight srv x \<in> set (map (weight srv) xs) then select_distinct srv xs
      else x # select_distinct srv xs)"

text \<open>
  \<open>INSERT INTO pool (text) SELECT DISTINCT text FROM parsed WHERE text NOT IN (SELECT text FROM pool)\<close>.
  The new texts differ from each other and from the texts of the pool, so the unique key
  of the pool is kept; they come out of an \<open>NVARCHAR(255)\<close> column, so they fit.
\<close>

definition intern_pool :: "server \<Rightarrow> pool \<Rightarrow> string list \<Rightarrow> pool" where
  "intern_pool srv p xs =
     pool_insert_all p
       (select_distinct srv (filter (\<lambda>x. weight srv x \<notin> set (map (\<lambda>(i, t). weight srv t) p)) xs))"

section \<open>The temporary tables\<close>

text \<open>
  \<open>executemany\<close> inserts the rows one by one into \<open>norostat_raw_datatable_parsed\<close>, whose
  columns are \<open>NVARCHAR(255) NOT NULL\<close> and whose primary key is
  \<open>(measurement_type, location, week)\<close>, compared as the server compares strings.
\<close>

definition store_row :: "server \<Rightarrow> parsed_row \<Rightarrow> error + parsed_row" where
  "store_row srv row =
     (case row of (m, l, w, x) \<Rightarrow>
        bind (nvarchar255 srv m) (\<lambda>m'.
        bind (nvarchar255 srv l) (\<lambda>l'.
        bind (nvarchar255 srv w) (\<lambda>w'.
        bind (nvarchar255 srv x) (\<lambda>x'. Inr (m', l', w', x'))))))"

definition parsed_key :: "server \<Rightarrow> parsed_row \<Rightarrow> string \<times> string \<times> string" where
  "parsed_key srv row = (case row of (m, l, w, x) \<Rightarrow> (weight srv m, weight srv l, weight srv w))"

fun insert_parsed :: "server \<Rightarrow> parsed_row list \<Rightarrow> parsed_row list \<Rightarrow> error + parsed_row list" where
  "insert_parsed srv tbl [] = Inr tbl"
| "insert_parsed srv tbl (row # rows) =
     (case store_row srv row of
        Inl e \<Rightarrow> Inl e
      | Inr stored \<Rightarrow>
          if parsed_key srv stored \<in> set (map (parsed_key srv) tbl) then Inl IntegrityError
          else insert_parsed srv (tbl @ [stored]) rows)"

text \<open>
  The query that fills \<open>norostat_raw_datatable_previous\<close> and \<open>norostat_raw_datatable_next\<close>:
  the rows \<open>latest\<close> of the diffs at or before \<open>v\<close> for which the left join finds no
  \<open>later\<close> row of the same cell at or before \<open>v\<close> with a greater version, and whose
  \<open>new_value\<close> is not \<open>NULL\<close>. Only ids and versions are compared.
\<close>

definition select_latest :: "diff_row list \<Rightarrow> version \<Rightarrow> state_row list" where
  "select_latest ds v =
     List.map_filter
       (\<lambda>latest. case new_value latest of None \<Rightarrow> None | Some x \<Rightarrow> Some (cell_of latest, x))
       (filter (\<lambda>latest. version_of latest \<le> v \<and>
                  \<not> (\<exists>later \<in> set ds. version_of later \<le> v \<and> cell_of later = cell_of latest \<and>
                        version_of latest < version_of later)) ds)"

text \<open>The temporary state tables have the primary key \<open>(measurement_type_id, location_id, week_id)\<close>.\<close>

definition insert_state_table :: "state_row list \<Rightarrow> error + state_row list" where
  "insert_state_table rows = (if distinct (map fst rows) then Inr rows else Inl IntegrityError)"

text \<open>
  \<open>SELECT ... FROM version_list WHERE (release_date, parse_time) > (%s, %s) ORDER BY release_date, parse_time LIMIT 1\<close>.
  The result has zero or one row, so the \<open>expect_result_in\<close> check that follows it in the
  source never raises.
\<close>

definition next_version :: "version list \<Rightarrow> version \<Rightarrow> version option" where
  "next_version vl v = (case sort (filter (\<lambda>u. v < u) vl) of [] \<Rightarrow> None | n # _ \<Rightarrow> Some n)"

section \<open>Statements on the stored tables\<close>

text \<open>
  Registering the version: the \<open>IntegrityError\<close> of the primary key is caught and raised
  again as a plain \<open>Exception\<close>, here \<open>VersionException\<close>.
\<close>

definition register_version :: "version \<Rightarrow> db \<Rightarrow> error + db" where
  "register_version v d =
     (if v \<in> set (raw_version_list d) then Inl VersionException
      else Inr (d\<lparr>raw_version_list := raw_version_list d @ [v]\<rparr>))"

definition intern_all :: "server \<Rightarrow> parsed_row list \<Rightarrow> db \<Rightarrow> db" where
  "intern_all srv parsed d =
     (let d1 = d\<lparr>measurement_type_pool :=
                 intern_pool srv (measurement_type_pool d) (map (\<lambda>(m, l, w, x). m) parsed)\<rparr>;
          d2 = d1\<lparr>location_pool := intern_pool srv (location_pool d1) (map (\<lambda>(m, l, w, x). l) parsed)\<rparr>
      in d2\<lparr>week_pool := intern_pool srv (week_pool d2) (map (\<lambda>(m, l, w, x). w) parsed)\<rparr>)"

text \<open>
  \<open>parsed LEFT JOIN measurement_type_pool USING (measurement_type) LEFT JOIN location_pool ... LEFT JOIN week_pool ...\<close>.
  A text without a pool row would give a \<open>NULL\<close> id, which the \<open>NOT NULL\<close> id columns of
  the diffs refuse; the three interning statements run before every such join, so this
  branch is never taken (lemma \<open>join_pools_intern_all\<close>).
\<close>

fun join_pools :: "server \<Rightarrow> db \<Rightarrow> parsed_row list \<Rightarrow> error + state_row list" where
  "join_pools srv d [] = Inr []"
| "join_pools srv d ((m, l, w, x) # rows) =
     (case (pool_id srv (measurement_type_pool d) m, pool_id srv (location_pool d) l,
            pool_id srv (week_pool d) w) of
        (Some mi, Some li, Some wi) \<Rightarrow>
          (case join_pools srv d rows of Inl e \<Rightarrow> Inl e | Inr js \<Rightarrow> Inr (((mi, li, wi), x) # js))
      | _ \<Rightarrow> Inl IntegrityError)"

text \<open>
  One row into \<open>norostat_raw_datatable_diffs\<close>: primary key
  \<open>(release_date, parse_time, measurement_type_id, location_id, week_id)\<close>, foreign keys
  into the version list and the three pools, \<open>new_value NVARCHAR(255)\<close>.
\<close>

definition insert_diff :: "server \<Rightarrow> diff_row \<Rightarrow> db \<Rightarrow> error + db" where
  "insert_diff srv r d =
     (case r of (v, (mi, li, wi), x) \<Rightarrow>
        if (v, (mi, li, wi)) \<in> set (map (\<lambda>r'. (version_of r', cell_of r')) (raw_diffs d))
          then Inl IntegrityError
        else if v \<notin> set (raw_version_list d) \<or> mi \<notin> set (map fst (measurement_type_pool d))
                \<or> li \<notin> set (map fst (location_pool d)) \<or> wi \<notin> set (map fst (week_pool d))
          then Inl IntegrityError
        else (case x of
                None \<Rightarrow> Inr (d\<lparr>raw_diffs := raw_diffs d @ [(v, (mi, li, wi), None)]\<rparr>)
              | Some s \<Rightarrow>
                  bind (nvarchar255 srv s) (\<lambda>s'.
                  Inr (d\<lparr>raw_diffs := raw_diffs d @ [(v, (mi, li, wi), Some s')]\<rparr>))))"

fun insert_diffs :: "server \<Rightarrow> diff_row list \<Rightarrow> db \<Rightarrow> error + db" where
  "insert_diffs srv [] d = Inr d"
| "insert_diffs srv (r # rs) d =
     (case insert_diff srv r d of Inl e \<Rightarrow> Inl e | Inr d' \<Rightarrow> insert_diffs srv rs d')"

definition delete_diffs_at :: "version \<Rightarrow> db \<Rightarrow> db" where
  "delete_diffs_at n d = d\<lparr>raw_diffs := filter (\<lambda>r. version_of r \<noteq> n) (raw_diffs d)\<rparr>"

text \<open>The two \<open>CREATE TABLE IF NOT EXISTS\<close> statements for the point tables.\<close>

definition create_point_tables :: "db \<Rightarrow> db" where
  "create_point_tables d =
     d\<lparr>point_version_list := (case point_version_list d of None \<Rightarrow> Some [] | Some t \<Rightarrow> Some t),
       point_diffs := (case point_diffs d of None \<Rightarrow> Some [] | Some t \<Rightarrow> Some t)\<rparr>"

section \<open>\<open>record_long_raw\<close>\<close>

text \<open>
  The two halves of a recorded diff between an old and a new state. The additions and
  updates are the rows of the new state for which
  \<open>(measurement_type_id, location_id, week_id, value) NOT IN (SELECT ... FROM old)\<close>: no
  row of the old state has the same ids and a value the server finds equal. The
  deletions are the cells of the old state that are absent from the new one, recorded
  with \<open>NULL\<close>.
\<close>

definition forward_additions :: "server \<Rightarrow> version \<Rightarrow> state_row list \<Rightarrow> state_row list \<Rightarrow> diff_row list" where
  "forward_additions srv v new old =
     map (\<lambda>(c, x). (v, c, Some x))
       (filter (\<lambda>(c, x). \<not> (\<exists>(c', x') \<in> set old. c' = c \<and> weight srv x' = weight srv x)) new)"

definition forward_deletions :: "version \<Rightarrow> state_row list \<Rightarrow> state_row list \<Rightarrow> diff_row list" where
  "forward_deletions v new old =
     map (\<lambda>(c, x). (v, c, None)) (filter (\<lambda>(c, x). c \<notin> set (map fst new)) old)"

definition stage :: "long_raw \<Rightarrow> parsed_row list" where
  "stage long_raw =
     (case long_raw of (long_raw_df, release_date, parse_time, location) \<Rightarrow>
        map (\<lambda>(week, measurement_type, value). (measurement_type, location, week, value)) long_raw_df)"

definition stamp :: "long_raw \<Rightarrow> version" where
  "stamp long_raw = (case long_raw of (long_raw_df, release_date, parse_time, location) \<Rightarrow>
     (release_date, parse_time))"

text \<open>
  Lines 143 to 242: stage the snapshot in \<open>norostat_raw_datatable_parsed\<close>, fill
  \<open>norostat_raw_datatable_previous\<close>, look for the next recorded version and, when
  there is one, fill \<open>norostat_raw_datatable_next\<close> (the table is not created
  otherwise; the empty list then stands for it and is never read). The stored tables are
  only read.
\<close>

definition reconstruct_states ::
  "server \<Rightarrow> long_raw \<Rightarrow> db \<Rightarrow>
     error + (parsed_row list \<times> state_row list \<times> version option \<times> state_row list)" where
  "reconstruct_states srv long_raw d =
     bind (insert_parsed srv [] (stage long_raw)) (\<lambda>parsed.
     bind (insert_state_table (select_latest (raw_diffs d) (stamp long_raw))) (\<lambda>previous.
     let next_version_if_any = next_version (raw_version_list d) (stamp long_raw) in
     bind (case next_version_if_any of None \<Rightarrow> Inr []
           | Some n \<Rightarrow> insert_state_table (select_latest (raw_diffs d) n)) (\<lambda>next.
     Inr (parsed, previous, next_version_if_any, next))))"

text \<open>
  Lines 251 to 349, the statements after the registration of the version: intern the
  strings, record the diff of the snapshot against the previous state, and, when there
  is a next version, delete its diff and record the diff of the next state against the
  snapshot.
\<close>

definition record_diffs ::
  "server \<Rightarrow> version \<Rightarrow> parsed_row list \<Rightarrow> state_row list \<Rightarrow> version option \<Rightarrow> state_row list \<Rightarrow>
     db \<Rightarrow> error + db" where
  "record_diffs srv v parsed previous next_version_if_any next d1 =
     (let d2 = intern_all srv parsed d1 in
      bind (join_pools srv d2 parsed) (\<lambda>joined.
      bind (insert_diffs srv (forward_additions srv v joined previous) d2) (\<lambda>d3.
      bind (insert_diffs srv (forward_deletions v joined previous) d3) (\<lambda>d4.
      case next_version_if_any of None \<Rightarrow> Inr d4
      | Some n \<Rightarrow>
          bind (insert_diffs srv (forward_additions srv n next joined) (delete_diffs_at n d4)) (\<lambda>d6.
          insert_diffs srv (forward_deletions n next joined) d6)))))"

text \<open>
  The statements of the \<open>try\<close> block up to the last diff statement, in the order of the
  source: the temporary tables, then the registration of the version (lines 243 to 250),
  then the pools and the diffs.
\<close>

definition record_long_raw_transaction :: "server \<Rightarrow> long_raw \<Rightarrow> db \<Rightarrow> error + db" where
  "record_long_raw_transaction srv long_raw d =
     bind (reconstruct_states srv long_raw d) (\<lambda>(parsed, previous, next_version_if_any, next).
     bind (register_version (stamp long_raw) d)
          (record_diffs srv (stamp long_raw) parsed previous next_version_if_any next))"

text \<open>
  The whole call. The statements run in one transaction
  (\<open>cnx.start_transaction(isolation_level='SERIALIZABLE')\<close>) on tables of a transactional
  storage engine; the transaction is committed only after the last diff statement, by
  the first \<open>CREATE TABLE IF NOT EXISTS\<close> (a statement that commits) and by
  \<open>cnx.commit()\<close>. When a statement raises, \<open>finally: cnx.close()\<close> closes the connection
  without a commit and the stored tables are as before the call. The result is the
  exception raised, if any, and the stored tables after the call.
\<close>

definition record_long_raw :: "server \<Rightarrow> long_raw \<Rightarrow> db \<Rightarrow> error option \<times> db" where
  "record_long_raw srv long_raw d =
     (case record_long_raw_transaction srv long_raw d of
        Inl e \<Rightarrow> (Some e, d)
      | Inr d' \<Rightarrow> (None, create_point_tables d'))"

section \<open>\<open>update_point\<close>\<close>

text \<open>
  \<open>re.compile(r"[0-9]+-[0-9]+$").match(s)\<close>: anchored at the start of \<open>s\<close>; \<open>$\<close> matches
  at the end of the string and just before a newline that ends the string.
\<close>

definition is_digit :: "char \<Rightarrow> bool" where
  "is_digit c = (c \<in> set ''0123456789'')"

definition prog_match :: "string \<Rightarrow> bool" where
  "prog_match s =
     (takeWhile is_digit s \<noteq> [] \<and>
      (case dropWhile is_digit s of
         [] \<Rightarrow> False
       | c # r \<Rightarrow> c = CHR ''-'' \<and> takeWhile is_digit r \<noteq> [] \<and>
           (dropWhile is_digit r = [] \<or> dropWhile is_digit r = [CHR 0x0A])))"

text \<open>
  The list comprehension that builds \<open>point_diff_insertion\<close> from the selected rows
  \<open>(version, measurement_type, location_id, week, new_value)\<close>. The texts come from left
  joins with the pools and are \<open>None\<close> (SQL \<open>NULL\<close>) when the pool has no such id;
  \<open>prog.match(None)\<close> raises \<open>TypeError\<close>. Two functions that the source calls are
  parameters: the helper \<open>season_db_to_epiweek\<close> of \<open>norostat_utils\<close>, which returns an
  epiweek or raises, and Python's built-in \<open>int\<close> on a string, here \<open>py_int\<close>, where
  \<open>None\<close> stands for the \<open>ValueError\<close> it raises on a string it does not accept.
\<close>

type_synonym selected_row = "version \<times> string option \<times> nat \<times> string option \<times> string option"

fun point_diff_insertion ::
  "(string \<Rightarrow> string option \<Rightarrow> error + int) \<Rightarrow> (string \<Rightarrow> int option) \<Rightarrow> selected_row list \<Rightarrow>
     error + (version \<times> nat \<times> int \<times> int option) list" where
  "point_diff_insertion season_db_to_epiweek py_int [] = Inr []"
| "point_diff_insertion season_db_to_epiweek py_int ((v, mt, location_id, week, new_value_str) # rest) =
     (case mt of
        None \<Rightarrow> Inl TypeError
      | Some measurement_type \<Rightarrow>
          if prog_match measurement_type \<and> new_value_str \<noteq> Some [] then
            (case season_db_to_epiweek measurement_type week of
               Inl e \<Rightarrow> Inl e
             | Inr epiweek \<Rightarrow>
                 (case (case new_value_str of
                          None \<Rightarrow> Inr None
                        | Some s \<Rightarrow> (case py_int s of None \<Rightarrow> Inl ValueError | Some n \<Rightarrow> Inr (Some n))) of
                    Inl e \<Rightarrow> Inl e
                  | Inr new_val \<Rightarrow>
                      (case point_diff_insertion season_db_to_epiweek py_int rest of
                         Inl e \<Rightarrow> Inl e
                       | Inr others \<Rightarrow> Inr ((v, location_id, epiweek, new_val) # others))))
          else point_diff_insertion season_db_to_epiweek py_int rest)"

text \<open>
  One row into \<open>norostat_point_diffs\<close>: \<open>epiweek INT\<close>, \<open>new_value NVARCHAR(255)\<close> given as
  an integer or \<open>NULL\<close>, primary key \<open>(release_date, parse_time, location_id, epiweek)\<close>,
  foreign keys into the point version list and the location pool.
\<close>

definition int_column :: "server \<Rightarrow> int \<Rightarrow> error + int" where
  "int_column srv n = (if - (2 ^ 31) \<le> n \<and> n < 2 ^ 31 then Inr n else out_of_range srv n)"

definition insert_point_diff ::
  "server \<Rightarrow> version list \<Rightarrow> pool \<Rightarrow> version \<times> nat \<times> int \<times> int option \<Rightarrow> point_row list \<Rightarrow>
     error + point_row list" where
  "insert_point_diff srv pvl locs r tbl =
     (case r of (v, li, epiweek, x) \<Rightarrow>
        bind (int_column srv epiweek) (\<lambda>e.
        bind (case x of None \<Rightarrow> Inr None
              | Some n \<Rightarrow> (case int_text srv n of Inl err \<Rightarrow> Inl err | Inr t \<Rightarrow> Inr (Some t))) (\<lambda>t.
        if (v, li, e) \<in> set (map (\<lambda>(v', li', e', x'). (v', li', e')) tbl) then Inl IntegrityError
        else if v \<notin> set pvl \<or> li \<notin> set (map fst locs) then Inl IntegrityError
        else Inr (tbl @ [(v, li, e, t)]))))"

fun insert_point_diffs ::
  "server \<Rightarrow> version list \<Rightarrow> pool \<Rightarrow> (version \<times> nat \<times> int \<times> int option) list \<Rightarrow> point_row list \<Rightarrow>
     error + point_row list" where
  "insert_point_diffs srv pvl locs [] tbl = Inr tbl"
| "insert_point_diffs srv pvl locs (r # rs) tbl =
     (case insert_point_diff srv pvl locs r tbl of
        Inl e \<Rightarrow> Inl e
      | Inr tbl' \<Rightarrow> insert_point_diffs srv pvl locs rs tbl')"

text \<open>The raw diffs whose version is not in the point version list, joined with two pools.\<close>

definition raw_datatable_diff_selection :: "db \<Rightarrow> version list \<Rightarrow> selected_row list" where
  "raw_datatable_diff_selection d pvl =
     map (\<lambda>(v, (mi, li, wi), x).
            (v, pool_text (measurement_type_pool d) mi, li, pool_text (week_pool d) wi, x))
         (filter (\<lambda>r. version_of r \<notin> set pvl) (raw_diffs d))"

definition update_point_transaction ::
  "server \<Rightarrow> (string \<Rightarrow> string option \<Rightarrow> error + int) \<Rightarrow> (string \<Rightarrow> int option) \<Rightarrow> db \<Rightarrow> error + db" where
  "update_point_transaction srv season_db_to_epiweek py_int d =
     (case (point_version_list d, point_diffs d) of
        (Some pvl, Some pd) \<Rightarrow>
          bind (point_diff_insertion season_db_to_epiweek py_int (raw_datatable_diff_selection d pvl)) (\<lambda>ins.
          let pvl' = pvl @ remdups (filter (\<lambda>v. v \<notin> set pvl) (raw_version_list d)) in
          bind (insert_point_diffs srv pvl' (location_pool d) ins pd) (\<lambda>pd'.
          Inr (d\<lparr>point_version_list := Some pvl', point_diffs := Some pd'\<rparr>)))
      | _ \<Rightarrow> Inl ProgrammingError)"

text \<open>
  The whole call: one transaction, committed after the last statement; an exception
  closes the connection without a commit.
\<close>

definition update_point ::
  "server \<Rightarrow> (string \<Rightarrow> string option \<Rightarrow> error + int) \<Rightarrow> (string \<Rightarrow> int option) \<Rightarrow> db \<Rightarrow>
     error option \<times> db" where
  "update_point srv season_db_to_epiweek py_int d =
     (case update_point_transaction srv season_db_to_epiweek py_int d of
        Inl e \<Rightarrow> (Some e, d)
      | Inr d' \<Rightarrow> (None, d'))"

section \<open>Notions used in the proofs\<close>

text \<open>
  The tables as sets of rows. \<open>latest_at D u r\<close>: \<open>r\<close> is a row of \<open>D\<close> at or before
  \<open>u\<close> and no row of the same cell lies strictly between it and \<open>u\<close>. \<open>state_at D u\<close> is
  the state of the table as of \<open>u\<close>: the values of the latest rows that are not removals.
  \<open>diff_rows W w A B\<close> are the rows recorded at \<open>w\<close> for the new state \<open>B\<close> against the
  old state \<open>A\<close>, where \<open>W\<close> is the weight of the collation. \<open>merge_states W A B\<close> is the
  state these rows produce on top of \<open>A\<close>: a cell of \<open>B\<close> keeps the value it has in \<open>A\<close>
  when the server finds the two values equal. \<open>state_equiv W S T\<close>: the states \<open>S\<close> and
  \<open>T\<close> have the same cells, with values that the server finds equal. \<open>db_ok\<close> collects
  the constraints of the schema: the primary key and the foreign keys of the diffs, the
  width of \<open>new_value\<close>, the primary keys of the pools.
\<close>

definition latest_at :: "diff_row set \<Rightarrow> version \<Rightarrow> diff_row \<Rightarrow> bool" where
  "latest_at D u r \<longleftrightarrow> r \<in> D \<and> version_of r \<le> u \<and>
     (\<forall>r' \<in> D. cell_of r' = cell_of r \<and> version_of r' \<le> u \<longrightarrow> \<not> version_of r < version_of r')"

definition state_at :: "diff_row set \<Rightarrow> version \<Rightarrow> state_row set" where
  "state_at D u = {(c, x). \<exists>r. latest_at D u r \<and> cell_of r = c \<and> new_value r = Some x}"

definition covered :: "(string \<Rightarrow> string) \<Rightarrow> state_row set \<Rightarrow> cell \<Rightarrow> string \<Rightarrow> bool" where
  "covered W A c x \<longleftrightarrow> (\<exists>x'. (c, x') \<in> A \<and> W x' = W x)"

definition diff_rows :: "(string \<Rightarrow> string) \<Rightarrow> version \<Rightarrow> state_row set \<Rightarrow> state_row set \<Rightarrow> diff_row set" where
  "diff_rows W w A B = {r. version_of r = w \<and>
     (case new_value r of Some x \<Rightarrow> (cell_of r, x) \<in> B \<and> \<not> covered W A (cell_of r) x
      | None \<Rightarrow> cell_of r \<in> fst ` A \<and> cell_of r \<notin> fst ` B)}"

definition merge_states :: "(string \<Rightarrow> string) \<Rightarrow> state_row set \<Rightarrow> state_row set \<Rightarrow> state_row set" where
  "merge_states W A B =
     {(c, x). (c, x) \<in> B \<and> \<not> covered W A c x} \<union> {(c, x). (c, x) \<in> A \<and> covered W B c x}"

definition state_equiv :: "(string \<Rightarrow> string) \<Rightarrow> state_row set \<Rightarrow> state_row set \<Rightarrow> bool" where
  "state_equiv W S T \<longleftrightarrow>
     (\<forall>c x. (c, x) \<in> S \<longrightarrow> covered W T c x) \<and> (\<forall>c x. (c, x) \<in> T \<longrightarrow> covered W S c x)"

definition key_unique :: "diff_row set \<Rightarrow> bool" where
  "key_unique D \<longleftrightarrow> (\<forall>r \<in> D. \<forall>r' \<in> D. version_of r = version_of r' \<and> cell_of r = cell_of r' \<longrightarrow> r = r')"

definition single_valued_rows :: "state_row set \<Rightarrow> bool" where
  "single_valued_rows B \<longleftrightarrow> (\<forall>c x y. (c, x) \<in> B \<and> (c, y) \<in> B \<longrightarrow> x = y)"

definition fits_row :: "diff_row \<Rightarrow> bool" where
  "fits_row r = (case new_value r of None \<Rightarrow> True | Some s \<Rightarrow> length s \<le> 255)"

definition cell_in_pools :: "db \<Rightarrow> cell \<Rightarrow> bool" where
  "cell_in_pools d c \<longleftrightarrow>
     fst c \<in> set (map fst (measurement_type_pool d)) \<and>
     fst (snd c) \<in> set (map fst (location_pool d)) \<and>
     snd (snd c) \<in> set (map fst (week_pool d))"

definition db_ok :: "db \<Rightarrow> bool" where
  "db_ok d \<longleftrightarrow>
     distinct (map (\<lambda>r. (version_of r, cell_of r)) (raw_diffs d)) \<and>
     (\<forall>r \<in> set (raw_diffs d). version_of r \<in> set (raw_version_list d) \<and>
        cell_in_pools d (cell_of r) \<and> fits_row r) \<and>
     distinct (map fst (measurement_type_pool d)) \<and>
     distinct (map fst (location_pool d)) \<and>
     distinct (map fst (week_pool d))"

definition row_fits :: "parsed_row \<Rightarrow> bool" where
  "row_fits row = (case row of (m, l, w, x) \<Rightarrow>
     length m \<le> 255 \<and> length l \<le> 255 \<and> length w \<le> 255 \<and> length x \<le> 255)"

definition joined_row :: "server \<Rightarrow> db \<Rightarrow> parsed_row \<Rightarrow> state_row \<Rightarrow> bool" where
  "joined_row srv d row j \<longleftrightarrow>
     (case row of (m, l, w, x) \<Rightarrow>
        pool_id srv (measurement_type_pool d) m = Some (fst (fst j)) \<and>
        pool_id srv (location_pool d) l = Some (fst (snd (fst j))) \<and>
        pool_id srv (week_pool d) w = Some (snd (snd (fst j))) \<and> snd j = x)"



section \<open>Example inputs\<close>

text \<open>
  Stand-ins for what the source does not contain, used only to evaluate the examples.
  \<open>ex_weight\<close> folds the letters \<open>a\<close> to \<open>z\<close> to upper case and drops trailing spaces, as
  the collation \<open>utf8_general_ci\<close> does on strings of ASCII letters, digits and spaces.
  \<open>ex_server\<close> is a server in strict mode with that collation; \<open>ex_decimal\<close> writes a
  non-negative integer in decimal. \<open>ex_int\<close> reads a non-empty string of decimal digits,
  as Python's \<open>int\<close> does, and raises on a string that has another character, which is
  what \<open>int\<close> does on every string of the examples. \<open>ex_epiweek\<close> stands for
  \<open>season_db_to_epiweek\<close>.
\<close>

definition ex_upper :: "char \<Rightarrow> char" where
  "ex_upper c = (case map_of (zip ''abcdefghijklmnopqrstuvwxyz'' ''ABCDEFGHIJKLMNOPQRSTUVWXYZ'') c of
                   None \<Rightarrow> c | Some u \<Rightarrow> u)"

definition ex_weight :: "string \<Rightarrow> string" where
  "ex_weight s = map ex_upper (rev (dropWhile (\<lambda>c. c = CHR '' '') (rev s)))"

fun ex_digits :: "nat \<Rightarrow> nat \<Rightarrow> string" where
  "ex_digits 0 n = []"
| "ex_digits (Suc k) n =
     (if n < 10 then [''0123456789'' ! n] else ex_digits k (n div 10) @ [''0123456789'' ! (n mod 10)])"

definition ex_decimal :: "int \<Rightarrow> error + string" where
  "ex_decimal n = (if 0 \<le> n then Inr (ex_digits (Suc (nat n)) (nat n)) else Inl DataError)"

definition ex_server :: server where
  "ex_server = \<lparr> weight = ex_weight,
                 truncates = (\<lambda>s. \<forall>c \<in> set (drop 255 s). c = CHR '' ''),
                 out_of_range = (\<lambda>n. Inl DataError),
                 int_text = ex_decimal \<rparr>"

definition ex_digit_value :: "char \<Rightarrow> int" where
  "ex_digit_value c = int (of_char c) - 48"

definition ex_int :: "string \<Rightarrow> int option" where
  "ex_int s = (if s \<noteq> [] \<and> (\<forall>c \<in> set s. is_digit c)
               then Some (foldl (\<lambda>a c. 10 * a + ex_digit_value c) 0 s) else None)"

definition ex_epiweek :: "string \<Rightarrow> string option \<Rightarrow> error + int" where
  "ex_epiweek m w = Inr 201201"

definition ex_empty_value :: long_raw where
  "ex_empty_value = ([(''w1'', ''2012-13'', '''')], 1, 0, ''loc'')"

definition ex_first :: long_raw where
  "ex_first = ([(''w1'', ''2012-13'', ''5'')], 1, 0, ''loc'')"

definition ex_repeat :: long_raw where
  "ex_repeat = ([(''w1'', ''2012-13'', ''5'')], 2, 0, ''loc'')"

definition ex_not_int :: long_raw where
  "ex_not_int = ([(''w1'', ''2012-13'', ''5x'')], 1, 0, ''loc'')"

definition ex_db_repeat :: db where
  "ex_db_repeat = snd (record_long_raw ex_server ex_repeat (snd (record_long_raw ex_server ex_first empty_db)))"

definition ex_db_not_int :: db where
  "ex_db_not_int = snd (record_long_raw ex_server ex_not_int empty_db)"

definition ex_second :: long_raw where
  "ex_second = ([(''w1'', ''2012-13'', ''7''), (''w2'', ''2012-13'', ''1'')], 3, 0, ''loc'')"

definition ex_between :: long_raw where
  "ex_between = ([(''w1'', ''2012-13'', ''6'')], 2, 0, ''loc'')"

definition ex_db_first :: db where
  "ex_db_first = snd (record_long_raw ex_server ex_first empty_db)"

definition ex_db_second :: db where
  "ex_db_second = snd (record_long_raw ex_server ex_second ex_db_first)"

definition ex_db_between :: db where
  "ex_db_between = snd (record_long_raw ex_server ex_between ex_db_second)"





section \<open>States of a diff chain\<close>

lemma single_valued_rowsD:
  "single_valued_rows B \<Longrightarrow> (c, x) \<in> B \<Longrightarrow> (c, y) \<in> B \<Longrightarrow> x = y"
  unfolding single_valued_rows_def by blast

lemma state_atI: "latest_at D u r \<Longrightarrow> new_value r = Some x \<Longrightarrow> (cell_of r, x) \<in> state_at D u"
  unfolding state_at_def by blast

lemma state_atE: "(c, x) \<in> state_at D u \<Longrightarrow> \<exists>r. latest_at D u r \<and> cell_of r = c \<and> new_value r = Some x"
  unfolding state_at_def by blast

lemma latest_unique:
  "key_unique D \<Longrightarrow> latest_at D u r \<Longrightarrow> latest_at D u r' \<Longrightarrow> cell_of r = cell_of r' \<Longrightarrow> r = r'"
  unfolding key_unique_def latest_at_def
  by (metis linorder_neqE)

lemma state_at_single: "key_unique D \<Longrightarrow> single_valued_rows (state_at D u)"
  unfolding single_valued_rows_def
  by (metis state_atE latest_unique option.inject)

lemma state_at_cong:
  assumes "\<And>r. version_of r \<le> u \<Longrightarrow> (r \<in> D' \<longleftrightarrow> r \<in> D)"
  shows "state_at D' u = state_at D u"
proof -
  have "latest_at D' u r \<longleftrightarrow> latest_at D u r" for r
    using assms unfolding latest_at_def by blast
  then show ?thesis by (simp add: state_at_def)
qed

lemma coveredI: "(c, x') \<in> A \<Longrightarrow> W x' = W x \<Longrightarrow> covered W A c x"
  unfolding covered_def by blast

lemma coveredE: "covered W A c x \<Longrightarrow> \<exists>x'. (c, x') \<in> A \<and> W x' = W x"
  unfolding covered_def by blast

lemma covered_dom: "covered W A c x \<Longrightarrow> c \<in> fst ` A"
  unfolding covered_def by force

lemma state_equivD1: "state_equiv W S T \<Longrightarrow> (c, x) \<in> S \<Longrightarrow> covered W T c x"
  unfolding state_equiv_def by blast

lemma state_equivD2: "state_equiv W S T \<Longrightarrow> (c, x) \<in> T \<Longrightarrow> covered W S c x"
  unfolding state_equiv_def by blast

lemma state_equiv_refl: "state_equiv W S S"
  unfolding state_equiv_def covered_def by blast

lemma state_equiv_sym: "state_equiv W S T \<Longrightarrow> state_equiv W T S"
  unfolding state_equiv_def by blast

lemma covered_equiv: "state_equiv W S T \<Longrightarrow> covered W S c x \<longleftrightarrow> covered W T c x"
  unfolding state_equiv_def covered_def by metis


lemma state_equiv_dom: "state_equiv W S T \<Longrightarrow> fst ` S = fst ` T"
proof -
  assume a: "state_equiv W S T"
  have "c \<in> fst ` T" if "c \<in> fst ` S" for c
  proof -
    from that obtain x where "(c, x) \<in> S" by auto
    then show ?thesis using state_equivD1[OF a] covered_dom by blast
  qed
  moreover have "c \<in> fst ` S" if "c \<in> fst ` T" for c
  proof -
    from that obtain x where "(c, x) \<in> T" by auto
    then show ?thesis using state_equivD2[OF a] covered_dom by blast
  qed
  ultimately show ?thesis by blast
qed


lemma merge_statesI1: "(c, x) \<in> B \<Longrightarrow> \<not> covered W A c x \<Longrightarrow> (c, x) \<in> merge_states W A B"
  unfolding merge_states_def by blast

lemma merge_statesI2: "(c, x) \<in> A \<Longrightarrow> covered W B c x \<Longrightarrow> (c, x) \<in> merge_states W A B"
  unfolding merge_states_def by blast

lemma merge_statesE:
  "(c, x) \<in> merge_states W A B \<Longrightarrow>
     ((c, x) \<in> B \<and> \<not> covered W A c x) \<or> ((c, x) \<in> A \<and> covered W B c x)"
  unfolding merge_states_def by blast

lemma merge_states_equiv: "state_equiv W (merge_states W A B) B"
proof -
  have "covered W B c x" if "(c, x) \<in> merge_states W A B" for c x
    using merge_statesE[OF that] coveredI[of c x B W x] by blast
  moreover have "covered W (merge_states W A B) c y" if y: "(c, y) \<in> B" for c y
  proof (cases "covered W A c y")
    case False
    then show ?thesis using y merge_statesI1 coveredI by metis
  next
    case True
    then obtain x' where x': "(c, x') \<in> A" "W x' = W y" using coveredE by blast
    then have "covered W B c x'" using y coveredI by metis
    then show ?thesis using x' merge_statesI2 coveredI by metis
  qed
  ultimately show ?thesis unfolding state_equiv_def by blast
qed

lemma merge_states_single:
  assumes "single_valued_rows A" and "single_valued_rows B"
  shows "single_valued_rows (merge_states W A B)"
  unfolding single_valued_rows_def
proof (intro allI impI)
  fix c x y
  assume "(c, x) \<in> merge_states W A B \<and> (c, y) \<in> merge_states W A B"
  then have x: "((c, x) \<in> B \<and> \<not> covered W A c x) \<or> ((c, x) \<in> A \<and> covered W B c x)"
    and y: "((c, y) \<in> B \<and> \<not> covered W A c y) \<or> ((c, y) \<in> A \<and> covered W B c y)"
    using merge_statesE by blast+
  have cross: "False" if "(c, p) \<in> B" "\<not> covered W A c p" "(c, q) \<in> A" "covered W B c q" for p q
  proof -
    from that(4) obtain b where b: "(c, b) \<in> B" "W b = W q" using coveredE by blast
    then have "b = p" using that(1) assms(2) single_valued_rowsD by blast
    then have "covered W A c p" using b that(3) coveredI by metis
    then show False using that(2) by simp
  qed
  from x y show "x = y"
    using assms single_valued_rowsD cross by blast
qed

lemma diff_rows_Some:
  "r \<in> diff_rows W w A B \<Longrightarrow> new_value r = Some x \<Longrightarrow> (cell_of r, x) \<in> B \<and> \<not> covered W A (cell_of r) x"
  by (simp add: diff_rows_def)

lemma diff_rows_None:
  "r \<in> diff_rows W w A B \<Longrightarrow> new_value r = None \<Longrightarrow> cell_of r \<in> fst ` A \<and> cell_of r \<notin> fst ` B"
  by (simp add: diff_rows_def)

lemma diff_rows_version: "r \<in> diff_rows W w A B \<Longrightarrow> version_of r = w"
  by (simp add: diff_rows_def)

lemma diff_rows_add: "(c, x) \<in> B \<Longrightarrow> \<not> covered W A c x \<Longrightarrow> (w, c, Some x) \<in> diff_rows W w A B"
  by (simp add: diff_rows_def version_of_def cell_of_def new_value_def)

lemma diff_rows_del: "c \<in> fst ` A \<Longrightarrow> c \<notin> fst ` B \<Longrightarrow> (w, c, None) \<in> diff_rows W w A B"
  by (simp add: diff_rows_def version_of_def cell_of_def new_value_def)

lemma diff_rows_equiv:
  assumes "state_equiv W A0 A"
  shows "diff_rows W w A0 B = diff_rows W w A B"
  unfolding diff_rows_def covered_equiv[OF assms] state_equiv_dom[OF assms] ..

lemma state_after_diff:
  assumes single: "single_valued_rows B"
    and keys: "key_unique D0"
    and low: "\<And>r. r \<in> D0 \<Longrightarrow> version_of r \<le> p \<Longrightarrow> version_of r < w"
    and rows: "\<And>r. (r \<in> D' \<and> version_of r \<le> u) \<longleftrightarrow>
                 (r \<in> D0 \<and> version_of r \<le> p) \<or> r \<in> diff_rows W w (state_at D0 p) B"
    and wu: "w \<le> u"
  shows "state_at D' u = merge_states W (state_at D0 p) B"
proof (rule set_eqI, clarify)
  fix c x
  let ?A = "state_at D0 p"
  have Asingle: "single_valued_rows ?A" using keys by (rule state_at_single)
  show "(c, x) \<in> state_at D' u \<longleftrightarrow> (c, x) \<in> merge_states W ?A B"
  proof
    assume "(c, x) \<in> state_at D' u"
    then obtain r where r: "latest_at D' u r" "cell_of r = c" "new_value r = Some x"
      using state_atE by blast
    then have rin: "r \<in> D' \<and> version_of r \<le> u" by (simp add: latest_at_def)
    have nolater: "\<And>r'. r' \<in> D' \<Longrightarrow> version_of r' \<le> u \<Longrightarrow> cell_of r' = c \<Longrightarrow> \<not> version_of r < version_of r'"
      using r by (auto simp: latest_at_def)
    from rin rows consider (old) "r \<in> D0" "version_of r \<le> p" | (new) "r \<in> diff_rows W w ?A B"
      by blast
    then show "(c, x) \<in> merge_states W ?A B"
    proof cases
      case new
      then show ?thesis using diff_rows_Some r merge_statesI1 by blast
    next
      case old
      then have lt: "version_of r < w" using low by blast
      have "latest_at D0 p r"
        unfolding latest_at_def using old nolater r(2) rows by metis
      then have inA: "(c, x) \<in> ?A" using r state_atI by blast
      have nodiff: "\<And>r'. r' \<in> diff_rows W w ?A B \<Longrightarrow> cell_of r' \<noteq> c"
      proof
        fix r' assume a: "r' \<in> diff_rows W w ?A B" "cell_of r' = c"
        then have "r' \<in> D'" "version_of r' \<le> u" using rows by blast+
        moreover have "version_of r' = w" using a diff_rows_version by blast
        ultimately show False using nolater a lt by blast
      qed
      have "c \<in> fst ` B"
      proof (rule ccontr)
        assume "c \<notin> fst ` B"
        moreover have "c \<in> fst ` ?A" using inA by force
        ultimately have "(w, c, None) \<in> diff_rows W w ?A B" using diff_rows_del by blast
        then show False using nodiff by (fastforce simp: cell_of_def)
      qed
      then obtain y where y: "(c, y) \<in> B" by auto
      have "covered W ?A c y"
      proof (rule ccontr)
        assume "\<not> covered W ?A c y"
        then have "(w, c, Some y) \<in> diff_rows W w ?A B" using y diff_rows_add by blast
        then show False using nodiff by (fastforce simp: cell_of_def)
      qed
      then obtain x' where x': "(c, x') \<in> ?A" "W x' = W y" using coveredE by blast
      then have "x' = x" using inA Asingle single_valued_rowsD by blast
      then have "covered W B c x" using x' y coveredI by metis
      then show ?thesis using inA merge_statesI2 by blast
    qed
  next
    assume "(c, x) \<in> merge_states W ?A B"
    then consider (fresh) "(c, x) \<in> B" "\<not> covered W ?A c x" | (kept) "(c, x) \<in> ?A" "covered W B c x"
      using merge_statesE by blast
    then show "(c, x) \<in> state_at D' u"
    proof cases
      case fresh
      let ?r = "(w, c, Some x)"
      have d: "?r \<in> diff_rows W w ?A B" using fresh diff_rows_add by blast
      then have "?r \<in> D'" "version_of ?r \<le> u" using rows by blast+
      moreover have "\<And>r'. r' \<in> D' \<Longrightarrow> version_of r' \<le> u \<Longrightarrow> \<not> w < version_of r'"
        using rows low diff_rows_version by (metis less_imp_not_less order.strict_implies_not_eq)
      ultimately have "latest_at D' u ?r"
        by (auto simp: latest_at_def version_of_def)
      then show ?thesis using state_atI[of D' u ?r x] by (simp add: cell_of_def new_value_def)
    next
      case kept
      then obtain r where r: "latest_at D0 p r" "cell_of r = c" "new_value r = Some x"
        using state_atE by blast
      then have r0: "r \<in> D0" "version_of r \<le> p" by (auto simp: latest_at_def)
      then have rin: "r \<in> D'" "version_of r \<le> u" using rows by blast+
      from kept(2) obtain b where b: "(c, b) \<in> B" "W b = W x" using coveredE by blast
      have "\<not> version_of r < version_of r'" if a: "r' \<in> D'" "version_of r' \<le> u" "cell_of r' = c" for r'
      proof -
        from a rows consider (old) "r' \<in> D0" "version_of r' \<le> p" | (new) "r' \<in> diff_rows W w ?A B"
          by blast
        then show ?thesis
        proof cases
          case old
          then show ?thesis using r a by (auto simp: latest_at_def)
        next
          case new
          show ?thesis
          proof (cases "new_value r'")
            case None
            then have "c \<notin> fst ` B" using new diff_rows_None a by blast
            then show ?thesis using b by force
          next
            case (Some y)
            then have y: "(c, y) \<in> B" "\<not> covered W ?A c y" using new diff_rows_Some a by blast+
            then have "y = b" using b single single_valued_rowsD by blast
            then have "covered W ?A c y" using kept(1) b coveredI by metis
            then show ?thesis using y by simp
          qed
        qed
      qed
      then have "latest_at D' u r" using rin r(2) by (auto simp: latest_at_def)
      then show ?thesis using r state_atI by blast
    qed
  qed
qed

lemma state_at_later_equiv:
  assumes agree: "\<And>r. n < version_of r \<Longrightarrow> (r \<in> D' \<longleftrightarrow> r \<in> D)"
    and same: "state_equiv W (state_at D' n) (state_at D n)"
    and nu: "n \<le> u"
  shows "state_equiv W (state_at D' u) (state_at D u)"
proof -
  have half: "covered W (state_at E' u) c x"
    if ag: "\<And>r. n < version_of r \<Longrightarrow> (r \<in> E' \<longleftrightarrow> r \<in> E)"
      and sm: "state_equiv W (state_at E n) (state_at E' n)"
      and cx: "(c, x) \<in> state_at E u"
    for E E' c x
  proof -
    from cx obtain r where r: "latest_at E u r" "cell_of r = c" "new_value r = Some x"
      using state_atE by blast
    show ?thesis
    proof (cases "n < version_of r")
      case True
      then have "latest_at E' u r"
        using r ag unfolding latest_at_def by (metis order.strict_trans)
      then have "(c, x) \<in> state_at E' u" using r state_atI by blast
      then show ?thesis using coveredI by metis
    next
      case False
      then have "latest_at E n r" using r nu unfolding latest_at_def
        by (meson not_less order.trans)
      then have "(c, x) \<in> state_at E n" using r state_atI by blast
      then have "covered W (state_at E' n) c x" using sm state_equivD1 by blast
      then obtain x2 where x2: "(c, x2) \<in> state_at E' n" "W x2 = W x" using coveredE by blast
      then obtain r2 where r2: "latest_at E' n r2" "cell_of r2 = c" "new_value r2 = Some x2"
        using state_atE by blast
      have "\<not> version_of r2 < version_of r'" if a: "r' \<in> E'" "cell_of r' = c" "version_of r' \<le> u" for r'
      proof (cases "n < version_of r'")
        case True
        then have "r' \<in> E" using ag a by blast
        then have "\<not> version_of r < version_of r'" using r a by (auto simp: latest_at_def)
        then show ?thesis using True False by auto
      next
        case False
        then show ?thesis using r2 a by (auto simp: latest_at_def)
      qed
      then have "latest_at E' u r2" using r2 nu by (auto simp: latest_at_def)
      then have "(c, x2) \<in> state_at E' u" using r2 state_atI by blast
      then show ?thesis using x2 coveredI by metis
    qed
  qed
  have 1: "covered W (state_at D u) c x" if "(c, x) \<in> state_at D' u" for c x
    using half[of D D' c x] agree same that by blast
  have 2: "covered W (state_at D' u) c x" if "(c, x) \<in> state_at D u" for c x
    using half[of D' D c x] agree state_equiv_sym[OF same] that by blast
  show ?thesis unfolding state_equiv_def using 1 2 by blast
qed

section \<open>Pools\<close>

lemma pool_id_mem: "pool_id srv p s = Some i \<Longrightarrow> \<exists>t. (i, t) \<in> set p \<and> weight srv t = weight srv s"
  by (induction p) (auto split: if_splits)

lemma pool_id_None_iff: "pool_id srv p s = None \<longleftrightarrow> weight srv s \<notin> (\<lambda>(i, t). weight srv t) ` set p"
  by (induction p) (auto split: if_splits)

lemma pool_text_mem: "distinct (map fst p) \<Longrightarrow> (i, s) \<in> set p \<Longrightarrow> pool_text p i = Some s"
  by (induction p) (auto simp: rev_image_eqI)

lemma pool_text_in: "pool_text p i = Some s \<Longrightarrow> (i, s) \<in> set p"
  by (induction p) (auto split: if_splits)


lemma pool_text_append: "pool_text p i = Some s \<Longrightarrow> pool_text (p @ q) i = Some s"
  by (induction p) auto

lemma fold_max_ge: "fold max xs (a::nat) \<ge> a"
  by (induction xs arbitrary: a) (auto intro: order_trans[OF max.cobounded2])

lemma fold_max_mem: "x \<in> set xs \<Longrightarrow> x \<le> fold max xs (a::nat)"
proof (induction xs arbitrary: a)
  case Nil
  then show ?case by simp
next
  case (Cons y ys)
  show ?case
  proof (cases "x = y")
    case True
    have "max y a \<le> fold max ys (max y a)" by (rule fold_max_ge)
    then show ?thesis using True by simp
  next
    case False
    then show ?thesis using Cons by simp
  qed
qed

lemma auto_increment_fresh: "auto_increment p \<notin> fst ` set p"
proof
  assume "auto_increment p \<in> fst ` set p"
  then have "auto_increment p \<in> set (map fst p)" by simp
  then have "auto_increment p \<le> fold max (map fst p) 0" by (rule fold_max_mem)
  then show False by (simp add: auto_increment_def)
qed

lemma pool_insert_all_prefix: "\<exists>q. pool_insert_all p ss = p @ q"
proof (induction ss arbitrary: p)
  case Nil
  then show ?case by simp
next
  case (Cons s ss)
  from Cons[of "p @ [(auto_increment p, s)]"] show ?case by auto
qed

lemma pool_insert_all_distinct:
  "distinct (map fst p) \<Longrightarrow> distinct (map fst (pool_insert_all p ss))"
proof (induction ss arbitrary: p)
  case Nil
  then show ?case by simp
next
  case (Cons s ss)
  have "distinct (map fst (p @ [(auto_increment p, s)]))"
    using Cons.prems auto_increment_fresh[of p] by simp
  then show ?case using Cons.IH by simp
qed

lemma pool_insert_all_texts: "snd ` set (pool_insert_all p ss) = snd ` set p \<union> set ss"
  by (induction ss arbitrary: p) auto

lemma select_distinct_weights: "weight srv ` set (select_distinct srv xs) = weight srv ` set xs"
  by (induction xs) auto

lemma intern_pool_prefix: "\<exists>q. intern_pool srv p xs = p @ q"
  by (simp add: intern_pool_def pool_insert_all_prefix)

lemma intern_pool_distinct: "distinct (map fst p) \<Longrightarrow> distinct (map fst (intern_pool srv p xs))"
  by (simp add: intern_pool_def pool_insert_all_distinct)

lemma intern_pool_weights:
  "weight srv ` snd ` set (intern_pool srv p xs) = weight srv ` snd ` set p \<union> weight srv ` set xs"
proof -
  let ?new = "filter (\<lambda>x. weight srv x \<notin> set (map (\<lambda>(i, t). weight srv t) p)) xs"
  have w: "(\<lambda>(i, t). weight srv t) ` set p = weight srv ` snd ` set p" by force
  have "weight srv ` snd ` set (intern_pool srv p xs)
          = weight srv ` snd ` set p \<union> weight srv ` set (select_distinct srv ?new)"
    by (simp add: intern_pool_def pool_insert_all_texts image_Un)
  also have "\<dots> = weight srv ` snd ` set p \<union> weight srv ` set ?new"
    by (simp add: select_distinct_weights)
  also have "\<dots> = weight srv ` snd ` set p \<union> weight srv ` set xs"
    using w by auto
  finally show ?thesis .
qed

lemma intern_pool_has_id: "x \<in> set xs \<Longrightarrow> \<exists>i. pool_id srv (intern_pool srv p xs) x = Some i"
proof -
  assume "x \<in> set xs"
  then have "weight srv x \<in> weight srv ` snd ` set (intern_pool srv p xs)"
    unfolding intern_pool_weights by blast
  then have "weight srv x \<in> (\<lambda>(i, t). weight srv t) ` set (intern_pool srv p xs)" by force
  then have "pool_id srv (intern_pool srv p xs) x \<noteq> None" unfolding pool_id_None_iff by simp
  then show ?thesis by blast
qed

lemma intern_pool_ids_mono: "fst ` set p \<subseteq> fst ` set (intern_pool srv p xs)"
  using intern_pool_prefix[of srv p xs] by auto

lemma pool_id_inj:
  assumes "distinct (map fst p)" and "pool_id srv p s = Some i" and "pool_id srv p t = Some i"
  shows "weight srv s = weight srv t"
proof -
  from pool_id_mem[OF assms(2)] obtain a where a: "(i, a) \<in> set p" "weight srv a = weight srv s" by blast
  from pool_id_mem[OF assms(3)] obtain b where b: "(i, b) \<in> set p" "weight srv b = weight srv t" by blast
  have "a = b" using pool_text_mem[OF assms(1) a(1)] pool_text_mem[OF assms(1) b(1)] by simp
  then show ?thesis using a b by simp
qed

lemma pool_id_text:
  assumes "distinct (map fst p)" and "pool_id srv p s = Some i"
  shows "\<exists>t. pool_text p i = Some t \<and> weight srv t = weight srv s"
  using pool_id_mem[OF assms(2)] pool_text_mem[OF assms(1)] by blast

section \<open>The queries as sets\<close>

lemma set_map_filter_iff: "y \<in> set (List.map_filter f xs) \<longleftrightarrow> (\<exists>x \<in> set xs. f x = Some y)"
  by (induction xs) (auto split: option.splits)

lemma select_latest_row:
  "(case new_value r of None \<Rightarrow> None | Some y \<Rightarrow> Some (cell_of r, y)) = Some (c, x)
     \<longleftrightarrow> new_value r = Some x \<and> cell_of r = c"
  by (cases "new_value r") auto

lemma select_latest_set: "set (select_latest ds v) = state_at (set ds) v"
proof (rule set_eqI, clarify)
  fix c x
  have "(c, x) \<in> set (select_latest ds v) \<longleftrightarrow>
        (\<exists>r. latest_at (set ds) v r \<and> new_value r = Some x \<and> cell_of r = c)"
    unfolding select_latest_def set_map_filter_iff latest_at_def select_latest_row set_filter
    by blast
  then show "(c, x) \<in> set (select_latest ds v) \<longleftrightarrow> (c, x) \<in> state_at (set ds) v"
    unfolding state_at_def by blast
qed

lemma covered_set: "covered W (set old) c x \<longleftrightarrow> (\<exists>(c', x') \<in> set old. c' = c \<and> W x' = W x)"
  unfolding covered_def by auto

lemma forward_additions_mem:
  "r \<in> set (forward_additions srv w new old) \<longleftrightarrow>
     (\<exists>c x. r = (w, c, Some x) \<and> (c, x) \<in> set new \<and> \<not> covered (weight srv) (set old) c x)"
  unfolding forward_additions_def covered_set by force

lemma forward_deletions_mem:
  "r \<in> set (forward_deletions w new old) \<longleftrightarrow>
     (\<exists>c x. r = (w, c, None) \<and> (c, x) \<in> set old \<and> c \<notin> fst ` set new)"
  unfolding forward_deletions_def by force

lemma diff_rows_mem:
  "(u, c, x) \<in> diff_rows W w A B \<longleftrightarrow>
     u = w \<and> (case x of Some y \<Rightarrow> (c, y) \<in> B \<and> \<not> covered W A c y | None \<Rightarrow> c \<in> fst ` A \<and> c \<notin> fst ` B)"
  by (cases x) (simp_all add: diff_rows_def version_of_def cell_of_def new_value_def)

lemma forward_rows_set:
  "set (forward_additions srv w new old) \<union> set (forward_deletions w new old)
     = diff_rows (weight srv) w (set old) (set new)"
proof (rule set_eqI)
  fix r :: diff_row
  obtain u c x where r: "r = (u, c, x)" by (cases r) auto
  show "r \<in> set (forward_additions srv w new old) \<union> set (forward_deletions w new old)
        \<longleftrightarrow> r \<in> diff_rows (weight srv) w (set old) (set new)"
  proof (cases x)
    case None
    have "r \<in> set (forward_deletions w new old) \<longleftrightarrow> u = w \<and> c \<in> fst ` set old \<and> c \<notin> fst ` set new"
      unfolding forward_deletions_mem r None by force
    moreover have "r \<notin> set (forward_additions srv w new old)"
      unfolding forward_additions_mem r None by simp
    ultimately show ?thesis unfolding r None diff_rows_mem by simp
  next
    case (Some y)
    have "r \<in> set (forward_additions srv w new old) \<longleftrightarrow>
            u = w \<and> (c, y) \<in> set new \<and> \<not> covered (weight srv) (set old) c y"
      unfolding forward_additions_mem r Some by auto
    moreover have "r \<notin> set (forward_deletions w new old)"
      unfolding forward_deletions_mem r Some by simp
    ultimately show ?thesis unfolding r Some diff_rows_mem by simp
  qed
qed

lemma forward_additions_version: "r \<in> set (forward_additions srv w new old) \<Longrightarrow> version_of r = w"
  unfolding forward_additions_mem by (auto simp: version_of_def)

lemma forward_deletions_version: "r \<in> set (forward_deletions w new old) \<Longrightarrow> version_of r = w"
  unfolding forward_deletions_mem by (auto simp: version_of_def)

lemma key_unique_distinct:
  "distinct (map (\<lambda>r. (version_of r, cell_of r)) ds) \<Longrightarrow> key_unique (set ds)"
  unfolding key_unique_def by (metis (mono_tags, lifting) distinct_map inj_onD)

lemma map_fst_map_filter:
  assumes "\<And>x y. f x = Some y \<Longrightarrow> fst y = g x"
  shows "map fst (List.map_filter f xs) = map g (filter (\<lambda>x. f x \<noteq> None) xs)"
  using assms by (induction xs) (auto split: option.splits)

lemma select_latest_distinct:
  assumes "distinct (map (\<lambda>r. (version_of r, cell_of r)) ds)"
  shows "distinct (map fst (select_latest ds v))"
proof -
  let ?f = "\<lambda>latest. case new_value latest of None \<Rightarrow> None | Some x \<Rightarrow> Some (cell_of latest, x)"
  let ?L = "filter (\<lambda>latest. version_of latest \<le> v \<and>
                  \<not> (\<exists>later \<in> set ds. version_of later \<le> v \<and> cell_of later = cell_of latest \<and>
                        version_of latest < version_of later)) ds"
  have f: "fst y = cell_of x" if "?f x = Some y" for x y
    using that by (cases "new_value x") auto
  have sel: "map fst (select_latest ds v) = map cell_of (filter (\<lambda>x. ?f x \<noteq> None) ?L)"
    unfolding select_latest_def using f by (rule map_fst_map_filter)
  have lat: "latest_at (set ds) v r" if "r \<in> set ?L" for r
    using that unfolding latest_at_def by auto
  have "distinct ds" using assms by (simp add: distinct_map)
  then have d: "distinct (filter (\<lambda>x. ?f x \<noteq> None) ?L)" by simp
  have "inj_on cell_of (set (filter (\<lambda>x. ?f x \<noteq> None) ?L))"
  proof (rule inj_onI)
    fix r r' assume "r \<in> set (filter (\<lambda>x. ?f x \<noteq> None) ?L)"
      "r' \<in> set (filter (\<lambda>x. ?f x \<noteq> None) ?L)" "cell_of r = cell_of r'"
    then have "latest_at (set ds) v r" "latest_at (set ds) v r'" "cell_of r = cell_of r'"
      using lat by simp_all
    then show "r = r'"
      using latest_unique[OF key_unique_distinct[OF assms]] by blast
  qed
  then have "distinct (map cell_of (filter (\<lambda>x. ?f x \<noteq> None) ?L))"
    using d by (simp add: distinct_map)
  then show ?thesis unfolding sel .
qed

lemma select_latest_row_of:
  "(c, x) \<in> set (select_latest ds v) \<Longrightarrow> \<exists>r \<in> set ds. cell_of r = c \<and> new_value r = Some x"
  unfolding select_latest_set using state_atE latest_at_def by blast

section \<open>The statements of \<open>record_long_raw\<close>\<close>

lemma bind_Inr: "bind m f = Inr y \<longleftrightarrow> (\<exists>x. m = Inr x \<and> f x = Inr y)"
  by (cases m) (auto simp: bind_def)

lemma bind_Inl: "bind m f = Inl e \<longleftrightarrow> m = Inl e \<or> (\<exists>x. m = Inr x \<and> f x = Inl e)"
  by (cases m) (auto simp: bind_def)

lemma nvarchar255_fits: "nvarchar255 srv s = Inr t \<Longrightarrow> length t \<le> 255"
  by (auto simp: nvarchar255_def split: if_splits)

lemma nvarchar255_id: "length s \<le> 255 \<Longrightarrow> nvarchar255 srv s = Inr s"
  by (simp add: nvarchar255_def)

lemma db_ok_empty: "db_ok empty_db"
  by (simp add: db_ok_def empty_db_def)

lemma insert_diff_Inr:
  assumes "insert_diff srv r d = Inr d'"
  shows "\<exists>r'. d' = d\<lparr>raw_diffs := raw_diffs d @ [r']\<rparr> \<and> version_of r' = version_of r \<and>
           cell_of r' = cell_of r \<and> fits_row r' \<and> (fits_row r \<longrightarrow> r' = r)"
    and "(version_of r, cell_of r) \<notin> set (map (\<lambda>r'. (version_of r', cell_of r')) (raw_diffs d))"
    and "version_of r \<in> set (raw_version_list d)"
    and "cell_in_pools d (cell_of r)"
proof -
  obtain v mi li wi x where r: "r = (v, (mi, li, wi), x)" by (cases r) auto
  from assms have chk: "(v, (mi, li, wi)) \<notin> set (map (\<lambda>r'. (version_of r', cell_of r')) (raw_diffs d))"
    "v \<in> set (raw_version_list d)" "mi \<in> set (map fst (measurement_type_pool d))"
    "li \<in> set (map fst (location_pool d))" "wi \<in> set (map fst (week_pool d))"
    unfolding r insert_diff_def by (simp_all split: if_splits)
  show "(version_of r, cell_of r) \<notin> set (map (\<lambda>r'. (version_of r', cell_of r')) (raw_diffs d))"
    using chk(1) by (simp add: r version_of_def cell_of_def)
  show "version_of r \<in> set (raw_version_list d)" using chk(2) by (simp add: r version_of_def)
  show "cell_in_pools d (cell_of r)" using chk(3,4,5) by (simp add: r cell_in_pools_def cell_of_def)
  show "\<exists>r'. d' = d\<lparr>raw_diffs := raw_diffs d @ [r']\<rparr> \<and> version_of r' = version_of r \<and>
           cell_of r' = cell_of r \<and> fits_row r' \<and> (fits_row r \<longrightarrow> r' = r)"
  proof (cases x)
    case None
    then have "d' = d\<lparr>raw_diffs := raw_diffs d @ [r]\<rparr>"
      using assms chk unfolding r insert_diff_def by (simp split: if_splits)
    then show ?thesis using None
      by (intro exI[of _ r]) (simp add: r fits_row_def new_value_def)
  next
    case (Some s)
    then obtain s' where s': "nvarchar255 srv s = Inr s'"
      and d': "d' = d\<lparr>raw_diffs := raw_diffs d @ [(v, (mi, li, wi), Some s')]\<rparr>"
      using assms chk unfolding r insert_diff_def by (auto simp: bind_Inr split: if_splits)
    have "fits_row (v, (mi, li, wi), Some s')"
      using nvarchar255_fits[OF s'] by (simp add: fits_row_def new_value_def)
    moreover have "fits_row r \<longrightarrow> (v, (mi, li, wi), Some s') = r"
      using s' Some by (auto simp: r fits_row_def new_value_def nvarchar255_id)
    ultimately show ?thesis using d'
      by (intro exI[of _ "(v, (mi, li, wi), Some s')"]) (simp add: r version_of_def cell_of_def)
  qed
qed

lemma insert_diff_ok:
  assumes "db_ok d" and "insert_diff srv r d = Inr d'"
  shows "db_ok d'"
proof -
  from insert_diff_Inr(1)[OF assms(2)] obtain r' where
    r': "d' = d\<lparr>raw_diffs := raw_diffs d @ [r']\<rparr>" "version_of r' = version_of r"
      "cell_of r' = cell_of r" "fits_row r'" by blast
  have k: "map (\<lambda>r. (version_of r, cell_of r)) (raw_diffs d') =
      map (\<lambda>r. (version_of r, cell_of r)) (raw_diffs d) @ [(version_of r, cell_of r)]"
    by (simp add: r')
  have p: "measurement_type_pool d' = measurement_type_pool d" "location_pool d' = location_pool d"
    "week_pool d' = week_pool d" "raw_version_list d' = raw_version_list d"
    "set (raw_diffs d') = insert r' (set (raw_diffs d))"
    by (simp_all add: r')
  have c: "\<And>c. cell_in_pools d' c = cell_in_pools d c" by (simp add: cell_in_pools_def p)
  have "distinct (map (\<lambda>r. (version_of r, cell_of r)) (raw_diffs d'))"
    unfolding k using assms(1) insert_diff_Inr(2)[OF assms(2)] by (simp add: db_ok_def)
  moreover have "\<forall>x \<in> set (raw_diffs d'). version_of x \<in> set (raw_version_list d') \<and>
                   cell_in_pools d' (cell_of x) \<and> fits_row x"
    unfolding p c using assms(1) insert_diff_Inr(3,4)[OF assms(2)] r'(2,3,4)
    by (simp add: db_ok_def)
  ultimately show ?thesis using assms(1) by (simp add: db_ok_def p)
qed

lemma insert_diffs_Inr:
  "insert_diffs srv rs d = Inr d' \<Longrightarrow> \<forall>r \<in> set rs. fits_row r \<Longrightarrow>
     d' = d\<lparr>raw_diffs := raw_diffs d @ rs\<rparr>"
proof (induction rs arbitrary: d)
  case Nil
  then show ?case by simp
next
  case (Cons r rs)
  then obtain d1 where d1: "insert_diff srv r d = Inr d1" "insert_diffs srv rs d1 = Inr d'"
    by (auto split: sum.splits)
  have "d1 = d\<lparr>raw_diffs := raw_diffs d @ [r]\<rparr>"
    using insert_diff_Inr(1)[OF d1(1)] Cons.prems(2) by auto
  then show ?case using Cons.IH[OF d1(2)] Cons.prems(2) by simp
qed

lemma insert_diffs_append:
  "insert_diffs srv (xs @ ys) d = bind (insert_diffs srv xs d) (insert_diffs srv ys)"
  by (induction xs arbitrary: d) (auto simp: bind_def split: sum.splits)

lemma insert_diffs_ok: "db_ok d \<Longrightarrow> insert_diffs srv rs d = Inr d' \<Longrightarrow> db_ok d'"
proof (induction rs arbitrary: d)
  case Nil
  then show ?case by simp
next
  case (Cons r rs)
  then obtain d1 where d1: "insert_diff srv r d = Inr d1" "insert_diffs srv rs d1 = Inr d'"
    by (auto split: sum.splits)
  then show ?case using Cons insert_diff_ok by blast
qed

lemma delete_diffs_at_ok: "db_ok d \<Longrightarrow> db_ok (delete_diffs_at n d)"
  by (auto simp: db_ok_def delete_diffs_at_def cell_in_pools_def distinct_map_filter)

lemma register_version_Inr:
  "register_version v d = Inr d' \<Longrightarrow>
     v \<notin> set (raw_version_list d) \<and> d' = d\<lparr>raw_version_list := raw_version_list d @ [v]\<rparr>"
  by (auto simp: register_version_def split: if_splits)

lemma register_version_ok: "db_ok d \<Longrightarrow> register_version v d = Inr d' \<Longrightarrow> db_ok d'"
  by (auto simp: db_ok_def cell_in_pools_def dest!: register_version_Inr)

lemma intern_all_fields:
  "raw_diffs (intern_all srv parsed d) = raw_diffs d"
  "raw_version_list (intern_all srv parsed d) = raw_version_list d"
  "point_version_list (intern_all srv parsed d) = point_version_list d"
  "point_diffs (intern_all srv parsed d) = point_diffs d"
  "measurement_type_pool (intern_all srv parsed d) =
     intern_pool srv (measurement_type_pool d) (map (\<lambda>(m, l, w, x). m) parsed)"
  "location_pool (intern_all srv parsed d) =
     intern_pool srv (location_pool d) (map (\<lambda>(m, l, w, x). l) parsed)"
  "week_pool (intern_all srv parsed d) =
     intern_pool srv (week_pool d) (map (\<lambda>(m, l, w, x). w) parsed)"
  by (simp_all add: intern_all_def Let_def)

lemma intern_pool_id_mono: "i \<in> set (map fst p) \<Longrightarrow> i \<in> set (map fst (intern_pool srv p xs))"
  using intern_pool_ids_mono[of p srv xs] by auto

lemma cell_in_pools_intern_all: "cell_in_pools d c \<Longrightarrow> cell_in_pools (intern_all srv parsed d) c"
  unfolding cell_in_pools_def intern_all_fields
  by (simp only: intern_pool_id_mono)

lemma intern_all_ok: "db_ok d \<Longrightarrow> db_ok (intern_all srv parsed d)"
  unfolding db_ok_def intern_all_fields
  by (simp add: cell_in_pools_intern_all intern_pool_distinct)

lemma store_row_Inr:
  assumes "store_row srv (m, l, w, x) = Inr (m', l', w', x')"
  shows "nvarchar255 srv m = Inr m'" "nvarchar255 srv l = Inr l'"
    "nvarchar255 srv w = Inr w'" "nvarchar255 srv x = Inr x'"
  using assms unfolding store_row_def by (auto simp: bind_Inr)

lemma store_row_fits: "store_row srv row = Inr stored \<Longrightarrow> row_fits stored"
proof -
  obtain m l w x where r: "row = (m, l, w, x)" by (cases row) auto
  obtain m' l' w' x' where s: "stored = (m', l', w', x')" by (cases stored) auto
  assume a: "store_row srv row = Inr stored"
  note f = store_row_Inr[OF a[unfolded r s]]
  show ?thesis unfolding s row_fits_def
    using nvarchar255_fits[OF f(1)] nvarchar255_fits[OF f(2)] nvarchar255_fits[OF f(3)]
      nvarchar255_fits[OF f(4)] by simp
qed

lemma store_row_id: "row_fits row \<Longrightarrow> store_row srv row = Inr row"
  by (cases row) (simp add: row_fits_def store_row_def bind_def nvarchar255_id)

lemma insert_parsed_Inr:
  "insert_parsed srv tbl rows = Inr t \<Longrightarrow>
     (\<exists>stored. t = tbl @ stored \<and> list_all2 (\<lambda>row s. store_row srv row = Inr s) rows stored) \<and>
     (distinct (map (parsed_key srv) tbl) \<longrightarrow> distinct (map (parsed_key srv) t))"
proof (induction rows arbitrary: tbl)
  case Nil
  then show ?case by simp
next
  case (Cons row rows)
  from Cons.prems obtain s where s: "store_row srv row = Inr s"
    and fresh: "parsed_key srv s \<notin> set (map (parsed_key srv) tbl)"
    and rec: "insert_parsed srv (tbl @ [s]) rows = Inr t"
    by (auto split: sum.splits if_splits)
  from Cons.IH[OF rec] obtain stored where
    st: "t = (tbl @ [s]) @ stored" "list_all2 (\<lambda>row s. store_row srv row = Inr s) rows stored"
    and di: "distinct (map (parsed_key srv) (tbl @ [s])) \<longrightarrow> distinct (map (parsed_key srv) t)"
    by blast
  have a: "t = tbl @ (s # stored)" using st(1) by simp
  have b: "list_all2 (\<lambda>row s. store_row srv row = Inr s) (row # rows) (s # stored)"
    using s st(2) by simp
  have c: "distinct (map (parsed_key srv) tbl) \<longrightarrow> distinct (map (parsed_key srv) t)"
    using di fresh by simp
  show ?case using a b c by blast
qed

lemma staged_rows:
  assumes "insert_parsed srv [] rows = Inr parsed"
  shows "distinct (map (parsed_key srv) parsed)" and "\<forall>row \<in> set parsed. row_fits row"
    and "list_all2 (\<lambda>row s. store_row srv row = Inr s) rows parsed"
proof -
  from insert_parsed_Inr[OF assms] have
    l: "list_all2 (\<lambda>row s. store_row srv row = Inr s) rows parsed"
    and "distinct (map (parsed_key srv) parsed)" by simp_all
  then show "distinct (map (parsed_key srv) parsed)" by simp
  show "list_all2 (\<lambda>row s. store_row srv row = Inr s) rows parsed" by (rule l)
  show "\<forall>row \<in> set parsed. row_fits row"
  proof
    fix s assume "s \<in> set parsed"
    then obtain i where i: "i < length parsed" "parsed ! i = s" by (auto simp: in_set_conv_nth)
    then have "store_row srv (rows ! i) = Inr s"
      using l by (auto simp: list_all2_conv_all_nth)
    then obtain row where "store_row srv row = Inr s" by blast
    then show "row_fits s" by (rule store_row_fits)
  qed
qed

lemma insert_parsed_fitting:
  assumes "\<forall>row \<in> set rows. row_fits row" and "insert_parsed srv [] rows = Inr parsed"
  shows "parsed = rows"
proof -
  have "list_all2 (\<lambda>row s. store_row srv row = Inr s) rows parsed"
    using staged_rows(3)[OF assms(2)] .
  then have "list_all2 (=) rows parsed"
    using assms(1) by (induction rule: list_all2_induct) (auto simp: store_row_id)
  then have "rows = parsed" by (simp add: list_all2_eq)
  then show ?thesis by simp
qed

lemma insert_state_table_Inr: "insert_state_table rows = Inr t \<Longrightarrow> t = rows \<and> distinct (map fst rows)"
  by (auto simp: insert_state_table_def split: if_splits)

section \<open>The join with the pools\<close>

lemma join_pools_Inr:
  "join_pools srv d rows = Inr js \<Longrightarrow> list_all2 (joined_row srv d) rows js"
proof (induction rows arbitrary: js)
  case Nil
  then show ?case by simp
next
  case (Cons row rows)
  obtain m l w x where row: "row = (m, l, w, x)" by (cases row) auto
  from Cons.prems obtain mi li wi js' where
    ids: "pool_id srv (measurement_type_pool d) m = Some mi"
      "pool_id srv (location_pool d) l = Some li" "pool_id srv (week_pool d) w = Some wi"
    and rest: "join_pools srv d rows = Inr js'" and js: "js = ((mi, li, wi), x) # js'"
    unfolding row by (auto split: option.splits sum.splits)
  have "joined_row srv d row ((mi, li, wi), x)" by (simp add: joined_row_def row ids)
  then show ?case using Cons.IH[OF rest] js by simp
qed

lemma join_pools_total:
  assumes "\<And>m l w x. (m, l, w, x) \<in> set rows \<Longrightarrow>
     pool_id srv (measurement_type_pool d) m \<noteq> None \<and> pool_id srv (location_pool d) l \<noteq> None \<and>
     pool_id srv (week_pool d) w \<noteq> None"
  shows "\<exists>js. join_pools srv d rows = Inr js"
  using assms
proof (induction rows)
  case Nil
  then show ?case by simp
next
  case (Cons row rows)
  obtain m l w x where row: "row = (m, l, w, x)" by (cases row) auto
  have "pool_id srv (measurement_type_pool d) m \<noteq> None \<and> pool_id srv (location_pool d) l \<noteq> None \<and>
     pool_id srv (week_pool d) w \<noteq> None"
    using Cons.prems[of m l w x] by (simp add: row)
  then obtain mi li wi where ids: "pool_id srv (measurement_type_pool d) m = Some mi"
      "pool_id srv (location_pool d) l = Some li" "pool_id srv (week_pool d) w = Some wi"
    by auto
  have "\<exists>js. join_pools srv d rows = Inr js"
  proof (rule Cons.IH)
    fix m l w x assume "(m, l, w, x) \<in> set rows"
    then have "(m, l, w, x) \<in> set (row # rows)" by simp
    then show "pool_id srv (measurement_type_pool d) m \<noteq> None \<and>
      pool_id srv (location_pool d) l \<noteq> None \<and> pool_id srv (week_pool d) w \<noteq> None"
      by (rule Cons.prems)
  qed
  then obtain js where "join_pools srv d rows = Inr js" by blast
  then show ?case by (simp add: row ids)
qed

lemma join_pools_intern_all: "\<exists>js. join_pools srv (intern_all srv parsed d) parsed = Inr js"
proof (rule join_pools_total)
  fix m l w x assume r: "(m, l, w, x) \<in> set parsed"
  have "m \<in> set (map (\<lambda>(m, l, w, x). m) parsed)" "l \<in> set (map (\<lambda>(m, l, w, x). l) parsed)"
    "w \<in> set (map (\<lambda>(m, l, w, x). w) parsed)"
    using r by force+
  then show "pool_id srv (measurement_type_pool (intern_all srv parsed d)) m \<noteq> None \<and>
     pool_id srv (location_pool (intern_all srv parsed d)) l \<noteq> None \<and>
     pool_id srv (week_pool (intern_all srv parsed d)) w \<noteq> None"
    unfolding intern_all_fields using intern_pool_has_id by fastforce
qed

lemma join_pools_cong:
  assumes "measurement_type_pool a = measurement_type_pool b" "location_pool a = location_pool b"
    "week_pool a = week_pool b"
  shows "join_pools srv a rows = join_pools srv b rows"
  using assms by (induction rows) (auto split: option.splits)

lemma joined_row_mem:
  assumes "list_all2 (joined_row srv d) rows js" and "j \<in> set js"
  shows "\<exists>row \<in> set rows. joined_row srv d row j"
proof -
  from assms(2) obtain i where i: "i < length js" "js ! i = j" by (auto simp: in_set_conv_nth)
  then have "joined_row srv d (rows ! i) j" "i < length rows"
    using assms(1) by (auto simp: list_all2_conv_all_nth)
  then show ?thesis by (metis nth_mem)
qed

lemma joined_row_mem2:
  assumes "list_all2 (joined_row srv d) rows js" and "row \<in> set rows"
  shows "\<exists>j \<in> set js. joined_row srv d row j"
proof -
  from assms(2) obtain i where i: "i < length rows" "rows ! i = row" by (auto simp: in_set_conv_nth)
  then have "joined_row srv d row (js ! i)" "i < length js"
    using assms(1) by (auto simp: list_all2_conv_all_nth)
  then show ?thesis by (metis nth_mem)
qed

lemma joined_row_key:
  assumes "distinct (map fst (measurement_type_pool d))" "distinct (map fst (location_pool d))"
    "distinct (map fst (week_pool d))"
    and "joined_row srv d row j" "joined_row srv d row' j'" "fst j = fst j'"
  shows "parsed_key srv row = parsed_key srv row'"
proof -
  obtain m l w x where row: "row = (m, l, w, x)" by (cases row) auto
  obtain m' l' w' x' where row': "row' = (m', l', w', x')" by (cases row') auto
  have "weight srv m = weight srv m'"
    using pool_id_inj[OF assms(1), of srv m _ m'] assms(4,5,6) by (simp add: joined_row_def row row')
  moreover have "weight srv l = weight srv l'"
    using pool_id_inj[OF assms(2), of srv l _ l'] assms(4,5,6) by (simp add: joined_row_def row row')
  moreover have "weight srv w = weight srv w'"
    using pool_id_inj[OF assms(3), of srv w _ w'] assms(4,5,6) by (simp add: joined_row_def row row')
  ultimately show ?thesis by (simp add: parsed_key_def row row')
qed

lemma joined_distinct:
  assumes "distinct (map fst (measurement_type_pool d))" "distinct (map fst (location_pool d))"
    "distinct (map fst (week_pool d))"
    and "list_all2 (joined_row srv d) rows js" and "distinct (map (parsed_key srv) rows)"
  shows "distinct (map fst js)"
  using assms(4,5)
proof (induction rule: list_all2_induct)
  case Nil
  then show ?case by simp
next
  case (Cons row rows j js)
  have "fst j \<notin> set (map fst js)"
  proof
    assume "fst j \<in> set (map fst js)"
    then obtain j' where j': "j' \<in> set js" "fst j = fst j'" by auto
    from joined_row_mem[OF Cons.hyps(2) j'(1)] obtain row' where
      row': "row' \<in> set rows" "joined_row srv d row' j'" by blast
    have "parsed_key srv row = parsed_key srv row'"
      using joined_row_key[OF assms(1,2,3) Cons.hyps(1) row'(2) j'(2)] .
    then show False using Cons.prems row'(1) by force
  qed
  then show ?case using Cons by simp
qed

lemma distinct_fst_single: "distinct (map fst js) \<Longrightarrow> single_valued_rows (set js)"
  unfolding single_valued_rows_def by (metis eq_key_imp_eq_value)

lemma joined_values_fit:
  assumes "list_all2 (joined_row srv d) rows js" and "\<forall>row \<in> set rows. row_fits row"
    and "(c, x) \<in> set js"
  shows "length x \<le> 255"
proof -
  from joined_row_mem[OF assms(1,3)] obtain row where
    row: "row \<in> set rows" "joined_row srv d row (c, x)" by blast
  then show ?thesis using assms(2) by (cases row) (auto simp: joined_row_def row_fits_def)
qed

lemma joined_cell_in_pools:
  assumes "list_all2 (joined_row srv d) rows js" and "(c, x) \<in> set js"
  shows "cell_in_pools d c"
proof -
  from joined_row_mem[OF assms] obtain row where
    row: "row \<in> set rows" "joined_row srv d row (c, x)" by blast
  obtain m l w y where r: "row = (m, l, w, y)" by (cases row) auto
  have "pool_id srv (measurement_type_pool d) m = Some (fst c)"
    "pool_id srv (location_pool d) l = Some (fst (snd c))"
    "pool_id srv (week_pool d) w = Some (snd (snd c))"
    using row(2) by (simp_all add: joined_row_def r)
  then show ?thesis
    unfolding cell_in_pools_def using pool_id_mem by (metis fst_conv image_eqI list.set_map)
qed

section \<open>The transaction of \<open>record_long_raw\<close>\<close>

lemma reconstruct_states_Inr:
  assumes "reconstruct_states srv lr d = Inr (parsed, previous, nvia, nxt)"
  shows "insert_parsed srv [] (stage lr) = Inr parsed"
    and "previous = select_latest (raw_diffs d) (stamp lr)" and "distinct (map fst previous)"
    and "nvia = next_version (raw_version_list d) (stamp lr)"
    and "\<And>n. nvia = Some n \<Longrightarrow> nxt = select_latest (raw_diffs d) n \<and> distinct (map fst nxt)"
proof -
  from assms have
    a: "insert_parsed srv [] (stage lr) = Inr parsed"
    and b: "insert_state_table (select_latest (raw_diffs d) (stamp lr)) = Inr previous"
    and c: "nvia = next_version (raw_version_list d) (stamp lr)"
    and e: "(case nvia of None \<Rightarrow> Inr [] | Some n \<Rightarrow> insert_state_table (select_latest (raw_diffs d) n)) = Inr nxt"
    unfolding reconstruct_states_def by (auto simp: bind_Inr Let_def)
  show "insert_parsed srv [] (stage lr) = Inr parsed" by (rule a)
  show "previous = select_latest (raw_diffs d) (stamp lr)" "distinct (map fst previous)"
    using insert_state_table_Inr[OF b] by simp_all
  show "nvia = next_version (raw_version_list d) (stamp lr)" by (rule c)
  show "nxt = select_latest (raw_diffs d) n \<and> distinct (map fst nxt)" if "nvia = Some n" for n
    using e that insert_state_table_Inr by fastforce
qed

lemma reconstruct_states_succeeds:
  assumes "db_ok d" and "insert_parsed srv [] (stage lr) = Inr parsed"
  shows "reconstruct_states srv lr d =
     Inr (parsed, select_latest (raw_diffs d) (stamp lr), next_version (raw_version_list d) (stamp lr),
          (case next_version (raw_version_list d) (stamp lr) of None \<Rightarrow> []
           | Some n \<Rightarrow> select_latest (raw_diffs d) n))"
proof -
  have dk: "distinct (map (\<lambda>r. (version_of r, cell_of r)) (raw_diffs d))"
    using assms(1) by (simp add: db_ok_def)
  have st: "insert_state_table (select_latest (raw_diffs d) u) = Inr (select_latest (raw_diffs d) u)" for u
    using select_latest_distinct[OF dk] by (simp add: insert_state_table_def)
  show ?thesis
    unfolding reconstruct_states_def assms(2) Let_def
    by (cases "next_version (raw_version_list d) (stamp lr)") (simp_all add: bind_def st)
qed

lemma record_diffs_Inr:
  assumes "record_diffs srv v parsed previous nvia nxt d1 = Inr d'"
  shows "\<exists>joined. join_pools srv (intern_all srv parsed d1) parsed = Inr joined \<and>
     (\<exists>d4. insert_diffs srv (forward_additions srv v joined previous @ forward_deletions v joined previous)
              (intern_all srv parsed d1) = Inr d4 \<and>
       (case nvia of None \<Rightarrow> d' = d4
        | Some n \<Rightarrow> insert_diffs srv (forward_additions srv n nxt joined @ forward_deletions n nxt joined)
                      (delete_diffs_at n d4) = Inr d'))"
  using assms unfolding record_diffs_def Let_def insert_diffs_append
  by (cases nvia) (auto simp: bind_Inr)

lemma record_long_raw_transaction_Inr:
  assumes "record_long_raw_transaction srv lr d = Inr d'"
  shows "\<exists>parsed previous nvia nxt d1. reconstruct_states srv lr d = Inr (parsed, previous, nvia, nxt) \<and>
     register_version (stamp lr) d = Inr d1 \<and>
     record_diffs srv (stamp lr) parsed previous nvia nxt d1 = Inr d'"
  using assms unfolding record_long_raw_transaction_def
  by (auto simp: bind_Inr)

lemma record_long_raw_None:
  "record_long_raw srv lr d = (None, d') \<longleftrightarrow>
     (\<exists>t. record_long_raw_transaction srv lr d = Inr t \<and> d' = create_point_tables t)"
  unfolding record_long_raw_def by (auto split: sum.splits)

lemma record_long_raw_Some:
  "record_long_raw srv lr d = (Some e, d') \<longleftrightarrow> record_long_raw_transaction srv lr d = Inl e \<and> d' = d"
  unfolding record_long_raw_def by (auto split: sum.splits)

lemma create_point_tables_fields:
  "raw_diffs (create_point_tables d) = raw_diffs d"
  "raw_version_list (create_point_tables d) = raw_version_list d"
  "measurement_type_pool (create_point_tables d) = measurement_type_pool d"
  "location_pool (create_point_tables d) = location_pool d"
  "week_pool (create_point_tables d) = week_pool d"
  by (simp_all add: create_point_tables_def)

lemma forward_rows_fit:
  assumes "\<And>c x. (c, x) \<in> set new \<Longrightarrow> length x \<le> 255"
  shows "\<forall>r \<in> set (forward_additions srv w new old @ forward_deletions w new old). fits_row r"
proof
  fix r assume "r \<in> set (forward_additions srv w new old @ forward_deletions w new old)"
  then consider "r \<in> set (forward_additions srv w new old)" | "r \<in> set (forward_deletions w new old)"
    by auto
  then show "fits_row r"
  proof cases
    case 1
    then obtain c x where "r = (w, c, Some x)" "(c, x) \<in> set new"
      unfolding forward_additions_mem by blast
    then show ?thesis using assms by (simp add: fits_row_def new_value_def)
  next
    case 2
    then obtain c x where "r = (w, c, None)" unfolding forward_deletions_mem by blast
    then show ?thesis by (simp add: fits_row_def new_value_def)
  qed
qed

lemma select_latest_fit:
  assumes "db_ok d" and "(c, x) \<in> set (select_latest (raw_diffs d) u)"
  shows "length x \<le> 255"
proof -
  from select_latest_row_of[OF assms(2)] obtain r where
    r: "r \<in> set (raw_diffs d)" "new_value r = Some x" by blast
  then have "fits_row r" using assms(1) by (simp add: db_ok_def)
  then show ?thesis using r(2) by (simp add: fits_row_def)
qed

text \<open>The stored tables after a successful transaction.\<close>

lemma transaction_diffs:
  assumes ok: "db_ok d" and "record_long_raw_transaction srv lr d = Inr d'"
  shows "\<exists>parsed joined. insert_parsed srv [] (stage lr) = Inr parsed \<and>
     join_pools srv d' parsed = Inr joined \<and>
     raw_version_list d' = raw_version_list d @ [stamp lr] \<and>
     stamp lr \<notin> set (raw_version_list d) \<and>
     measurement_type_pool d' = intern_pool srv (measurement_type_pool d) (map (\<lambda>(m, l, w, x). m) parsed) \<and>
     location_pool d' = intern_pool srv (location_pool d) (map (\<lambda>(m, l, w, x). l) parsed) \<and>
     week_pool d' = intern_pool srv (week_pool d) (map (\<lambda>(m, l, w, x). w) parsed) \<and>
     point_version_list d' = point_version_list d \<and> point_diffs d' = point_diffs d \<and>
     (case next_version (raw_version_list d) (stamp lr) of
        None \<Rightarrow> raw_diffs d' = raw_diffs d
           @ forward_additions srv (stamp lr) joined (select_latest (raw_diffs d) (stamp lr))
           @ forward_deletions (stamp lr) joined (select_latest (raw_diffs d) (stamp lr))
      | Some n \<Rightarrow> raw_diffs d' = filter (\<lambda>r. version_of r \<noteq> n) (raw_diffs d
           @ forward_additions srv (stamp lr) joined (select_latest (raw_diffs d) (stamp lr))
           @ forward_deletions (stamp lr) joined (select_latest (raw_diffs d) (stamp lr)))
           @ forward_additions srv n (select_latest (raw_diffs d) n) joined
           @ forward_deletions n (select_latest (raw_diffs d) n) joined)"
proof -
  from record_long_raw_transaction_Inr[OF assms(2)] obtain parsed previous nvia nxt d1 where
    rs: "reconstruct_states srv lr d = Inr (parsed, previous, nvia, nxt)"
    and rv: "register_version (stamp lr) d = Inr d1"
    and rd: "record_diffs srv (stamp lr) parsed previous nvia nxt d1 = Inr d'"
    by blast
  note R = reconstruct_states_Inr[OF rs]
  from register_version_Inr[OF rv] have fresh: "stamp lr \<notin> set (raw_version_list d)"
    and d1: "d1 = d\<lparr>raw_version_list := raw_version_list d @ [stamp lr]\<rparr>" by simp_all
  let ?d2 = "intern_all srv parsed d1"
  from record_diffs_Inr[OF rd] obtain joined d4 where
    j: "join_pools srv ?d2 parsed = Inr joined"
    and i4: "insert_diffs srv (forward_additions srv (stamp lr) joined previous @ forward_deletions (stamp lr) joined previous) ?d2 = Inr d4"
    and fin: "(case nvia of None \<Rightarrow> d' = d4
        | Some n \<Rightarrow> insert_diffs srv (forward_additions srv n nxt joined @ forward_deletions n nxt joined)
                      (delete_diffs_at n d4) = Inr d')"
    by blast
  let ?F = "forward_additions srv (stamp lr) joined previous @ forward_deletions (stamp lr) joined previous"
  have jfit: "length x \<le> 255" if "(c, x) \<in> set joined" for c x
    using joined_values_fit[OF join_pools_Inr[OF j] staged_rows(2)[OF R(1)] that] .
  have fitF: "\<forall>r \<in> set ?F. fits_row r" using jfit by (rule forward_rows_fit)
  have d4: "d4 = ?d2\<lparr>raw_diffs := raw_diffs d @ ?F\<rparr>"
    using insert_diffs_Inr[OF i4 fitF] by (simp add: intern_all_fields d1)
  have rest: "raw_version_list d' = raw_version_list ?d2 \<and>
      measurement_type_pool d' = measurement_type_pool ?d2 \<and>
      location_pool d' = location_pool ?d2 \<and> week_pool d' = week_pool ?d2 \<and>
      point_version_list d' = point_version_list ?d2 \<and> point_diffs d' = point_diffs ?d2 \<and>
      (case nvia of None \<Rightarrow> raw_diffs d' = raw_diffs d @ ?F
       | Some n \<Rightarrow> raw_diffs d' = filter (\<lambda>r. version_of r \<noteq> n) (raw_diffs d @ ?F)
            @ forward_additions srv n nxt joined @ forward_deletions n nxt joined)"
  proof (cases nvia)
    case None
    then have "d' = d4" using fin by simp
    then show ?thesis unfolding None d4 by simp
  next
    case (Some n)
    then have i6: "insert_diffs srv (forward_additions srv n nxt joined @ forward_deletions n nxt joined)
                      (delete_diffs_at n d4) = Inr d'" using fin by simp
    have nx: "nxt = select_latest (raw_diffs d) n" using Some R(5) by simp
    have "\<forall>r \<in> set (forward_additions srv n nxt joined @ forward_deletions n nxt joined). fits_row r"
      by (rule forward_rows_fit) (use select_latest_fit[OF ok] nx in blast)
    from insert_diffs_Inr[OF i6 this]
    have "d' = (delete_diffs_at n d4)\<lparr>raw_diffs := raw_diffs (delete_diffs_at n d4) @
        forward_additions srv n nxt joined @ forward_deletions n nxt joined\<rparr>" .
    then show ?thesis unfolding Some d4 by (simp add: delete_diffs_at_def)
  qed
  have j': "join_pools srv d' parsed = Inr joined"
    using join_pools_cong[of d' ?d2 srv parsed] rest j by simp
  have v: "raw_version_list d' = raw_version_list d @ [stamp lr]"
    using rest by (simp add: intern_all_fields d1)
  have p1: "measurement_type_pool d' = intern_pool srv (measurement_type_pool d) (map (\<lambda>(m, l, w, x). m) parsed)"
    using rest by (simp add: intern_all_fields d1)
  have p2: "location_pool d' = intern_pool srv (location_pool d) (map (\<lambda>(m, l, w, x). l) parsed)"
    using rest by (simp add: intern_all_fields d1)
  have p3: "week_pool d' = intern_pool srv (week_pool d) (map (\<lambda>(m, l, w, x). w) parsed)"
    using rest by (simp add: intern_all_fields d1)
  have q: "point_version_list d' = point_version_list d \<and> point_diffs d' = point_diffs d"
    using rest by (simp add: intern_all_fields d1)
  have dd: "(case next_version (raw_version_list d) (stamp lr) of
        None \<Rightarrow> raw_diffs d' = raw_diffs d
           @ forward_additions srv (stamp lr) joined (select_latest (raw_diffs d) (stamp lr))
           @ forward_deletions (stamp lr) joined (select_latest (raw_diffs d) (stamp lr))
      | Some n \<Rightarrow> raw_diffs d' = filter (\<lambda>r. version_of r \<noteq> n) (raw_diffs d
           @ forward_additions srv (stamp lr) joined (select_latest (raw_diffs d) (stamp lr))
           @ forward_deletions (stamp lr) joined (select_latest (raw_diffs d) (stamp lr)))
           @ forward_additions srv n (select_latest (raw_diffs d) n) joined
           @ forward_deletions n (select_latest (raw_diffs d) n) joined)"
  proof (cases nvia)
    case None
    then show ?thesis using rest R(2,4) by simp
  next
    case (Some n)
    then have nx: "nxt = select_latest (raw_diffs d) n" using R(5) by simp
    have nv: "next_version (raw_version_list d) (stamp lr) = Some n" using Some R(4) by simp
    have "raw_diffs d' = filter (\<lambda>r. version_of r \<noteq> n) (raw_diffs d @ ?F)
            @ forward_additions srv n nxt joined @ forward_deletions n nxt joined"
      using rest Some by simp
    then show ?thesis unfolding nv nx R(2) by simp
  qed
  show ?thesis using R(1) j' v fresh p1 p2 p3 q dd by blast
qed

lemma transaction_ok:
  assumes "db_ok d" and "record_long_raw_transaction srv lr d = Inr d'"
  shows "db_ok d'"
proof -
  from record_long_raw_transaction_Inr[OF assms(2)] obtain parsed previous nvia nxt d1 where
    rv: "register_version (stamp lr) d = Inr d1"
    and rd: "record_diffs srv (stamp lr) parsed previous nvia nxt d1 = Inr d'"
    by blast
  have ok1: "db_ok d1" using assms(1) rv by (rule register_version_ok)
  have ok2: "db_ok (intern_all srv parsed d1)" using ok1 by (rule intern_all_ok)
  from record_diffs_Inr[OF rd] obtain joined d4 where
    i4: "insert_diffs srv (forward_additions srv (stamp lr) joined previous @ forward_deletions (stamp lr) joined previous) (intern_all srv parsed d1) = Inr d4"
    and fin: "(case nvia of None \<Rightarrow> d' = d4
        | Some n \<Rightarrow> insert_diffs srv (forward_additions srv n nxt joined @ forward_deletions n nxt joined)
                      (delete_diffs_at n d4) = Inr d')"
    by blast
  have ok4: "db_ok d4" using ok2 i4 by (rule insert_diffs_ok)
  show ?thesis
  proof (cases nvia)
    case None
    then show ?thesis using fin ok4 by simp
  next
    case (Some n)
    then have "insert_diffs srv (forward_additions srv n nxt joined @ forward_deletions n nxt joined)
                      (delete_diffs_at n d4) = Inr d'" using fin by simp
    moreover have "db_ok (delete_diffs_at n d4)" using ok4 by (rule delete_diffs_at_ok)
    ultimately show ?thesis by (rule insert_diffs_ok[rotated])
  qed
qed

lemma create_point_tables_ok: "db_ok d \<Longrightarrow> db_ok (create_point_tables d)"
  by (simp add: db_ok_def cell_in_pools_def create_point_tables_fields)

lemma record_long_raw_ok: "db_ok d \<Longrightarrow> db_ok (snd (record_long_raw srv lr d))"
  unfolding record_long_raw_def using transaction_ok create_point_tables_ok
  by (auto split: sum.splits)

section \<open>When the transaction succeeds\<close>

lemma next_version_Some:
  assumes "next_version vl v = Some n"
  shows "n \<in> set vl" and "v < n" and "\<And>u. u \<in> set vl \<Longrightarrow> v < u \<Longrightarrow> n \<le> u"
proof -
  from assms obtain rest where s: "sort (filter (\<lambda>u. v < u) vl) = n # rest"
    unfolding next_version_def by (auto split: list.splits)
  have "set (n # rest) = set (filter (\<lambda>u. v < u) vl)" using s by (metis set_sort)
  then have m: "insert n (set rest) = {u \<in> set vl. v < u}" by simp
  then show "n \<in> set vl" "v < n" by auto
  have "sorted (n # rest)" using s by (metis sorted_sort)
  then have le: "\<forall>x \<in> set rest. n \<le> x" by simp
  show "n \<le> u" if "u \<in> set vl" "v < u" for u
  proof -
    from that m have "u \<in> insert n (set rest)" by simp
    then show ?thesis using le by auto
  qed
qed

lemma next_version_None:
  assumes "next_version vl v = None" and "u \<in> set vl"
  shows "\<not> v < u"
proof -
  from assms(1) have "sort (filter (\<lambda>u. v < u) vl) = []"
    unfolding next_version_def by (auto split: list.splits)
  then have "set (filter (\<lambda>u. v < u) vl) = {}" by (metis set_sort set_empty)
  then have "{u \<in> set vl. v < u} = {}" by simp
  then show ?thesis using assms(2) by blast
qed

lemma insert_diff_succeeds:
  assumes "(version_of r, cell_of r) \<notin> set (map (\<lambda>r'. (version_of r', cell_of r')) (raw_diffs d))"
    and "version_of r \<in> set (raw_version_list d)" and "cell_in_pools d (cell_of r)" and "fits_row r"
  shows "insert_diff srv r d = Inr (d\<lparr>raw_diffs := raw_diffs d @ [r]\<rparr>)"
proof -
  obtain v mi li wi x where r: "r = (v, (mi, li, wi), x)" by (cases r) auto
  have a: "(v, (mi, li, wi)) \<notin> set (map (\<lambda>r'. (version_of r', cell_of r')) (raw_diffs d))"
    using assms(1) by (simp add: r version_of_def cell_of_def)
  have b: "v \<in> set (raw_version_list d)" using assms(2) by (simp add: r version_of_def)
  have c: "mi \<in> set (map fst (measurement_type_pool d))" "li \<in> set (map fst (location_pool d))"
    "wi \<in> set (map fst (week_pool d))"
    using assms(3) by (simp_all add: r cell_in_pools_def cell_of_def)
  show ?thesis
  proof (cases x)
    case None
    then show ?thesis unfolding r insert_diff_def using a b c by simp
  next
    case (Some s)
    then have "nvarchar255 srv s = Inr s"
      using assms(4) by (simp add: r fits_row_def new_value_def nvarchar255_id)
    then show ?thesis unfolding r insert_diff_def using a b c Some by (simp add: bind_def)
  qed
qed

lemma insert_diffs_succeeds:
  assumes "distinct (map (\<lambda>r. (version_of r, cell_of r)) rs)"
    and "\<And>r. r \<in> set rs \<Longrightarrow>
           (version_of r, cell_of r) \<notin> set (map (\<lambda>r'. (version_of r', cell_of r')) (raw_diffs d)) \<and>
           version_of r \<in> set (raw_version_list d) \<and> cell_in_pools d (cell_of r) \<and> fits_row r"
  shows "insert_diffs srv rs d = Inr (d\<lparr>raw_diffs := raw_diffs d @ rs\<rparr>)"
  using assms
proof (induction rs arbitrary: d)
  case Nil
  then show ?case by simp
next
  case (Cons r rs)
  let ?d1 = "d\<lparr>raw_diffs := raw_diffs d @ [r]\<rparr>"
  have r: "(version_of r, cell_of r) \<notin> set (map (\<lambda>r'. (version_of r', cell_of r')) (raw_diffs d))"
    "version_of r \<in> set (raw_version_list d)" "cell_in_pools d (cell_of r)" "fits_row r"
    using Cons.prems(2)[of r] by simp_all
  have 1: "insert_diff srv r d = Inr ?d1" using r by (rule insert_diff_succeeds)
  have 2: "insert_diffs srv rs ?d1 = Inr (?d1\<lparr>raw_diffs := raw_diffs ?d1 @ rs\<rparr>)"
  proof (rule Cons.IH)
    show "distinct (map (\<lambda>r. (version_of r, cell_of r)) rs)" using Cons.prems(1) by simp
    fix r' assume m: "r' \<in> set rs"
    have nin: "(version_of r, cell_of r) \<notin> (\<lambda>r. (version_of r, cell_of r)) ` set rs"
      using Cons.prems(1) by simp
    have k: "(version_of r', cell_of r') \<noteq> (version_of r, cell_of r)"
    proof
      assume eq: "(version_of r', cell_of r') = (version_of r, cell_of r)"
      have "(version_of r', cell_of r') \<in> (\<lambda>r. (version_of r, cell_of r)) ` set rs"
        using m by (rule imageI)
      then show False using eq nin by simp
    qed
    have cp: "cell_in_pools ?d1 c = cell_in_pools d c" for c by (simp add: cell_in_pools_def)
    have ks: "set (map (\<lambda>r'. (version_of r', cell_of r')) (raw_diffs ?d1)) =
       insert (version_of r, cell_of r) (set (map (\<lambda>r'. (version_of r', cell_of r')) (raw_diffs d)))"
      by simp
    have vs: "raw_version_list ?d1 = raw_version_list d" by simp
    have "(version_of r', cell_of r') \<notin> set (map (\<lambda>r'. (version_of r', cell_of r')) (raw_diffs d)) \<and>
           version_of r' \<in> set (raw_version_list d) \<and> cell_in_pools d (cell_of r') \<and> fits_row r'"
      by (rule Cons.prems(2)) (use m in simp)
    then show "(version_of r', cell_of r') \<notin> set (map (\<lambda>r'. (version_of r', cell_of r')) (raw_diffs ?d1)) \<and>
           version_of r' \<in> set (raw_version_list ?d1) \<and> cell_in_pools ?d1 (cell_of r') \<and> fits_row r'"
      unfolding cp ks vs using k by blast
  qed
  show ?case using 1 2 by simp
qed

lemma forward_additions_keys:
  "map (\<lambda>r. (version_of r, cell_of r)) (forward_additions srv w new old) =
     map (\<lambda>j. (w, fst j))
       (filter (\<lambda>(c, x). \<not> (\<exists>(c', x') \<in> set old. c' = c \<and> weight srv x' = weight srv x)) new)"
  unfolding forward_additions_def by (simp add: version_of_def cell_of_def case_prod_beta comp_def)

lemma forward_deletions_keys:
  "map (\<lambda>r. (version_of r, cell_of r)) (forward_deletions w new old) =
     map (\<lambda>j. (w, fst j)) (filter (\<lambda>(c, x). c \<notin> set (map fst new)) old)"
  unfolding forward_deletions_def by (simp add: version_of_def cell_of_def case_prod_beta comp_def)

lemma distinct_keys_filter:
  assumes "distinct (map fst js)"
  shows "distinct (map (\<lambda>j. (w, fst j)) (filter P js))"
proof -
  have "distinct (map fst (filter P js))" using assms by (rule distinct_map_filter)
  then have "distinct (map (Pair w) (map fst (filter P js)))"
    by (simp add: distinct_map inj_on_def)
  then show ?thesis by (simp add: comp_def)
qed

lemma forward_rows_distinct:
  assumes "distinct (map fst new)" and "distinct (map fst old)"
  shows "distinct (map (\<lambda>r. (version_of r, cell_of r))
           (forward_additions srv w new old @ forward_deletions w new old))"
proof -
  have a: "distinct (map (\<lambda>r. (version_of r, cell_of r)) (forward_additions srv w new old))"
    unfolding forward_additions_keys using assms(1) by (rule distinct_keys_filter)
  have b: "distinct (map (\<lambda>r. (version_of r, cell_of r)) (forward_deletions w new old))"
    unfolding forward_deletions_keys using assms(2) by (rule distinct_keys_filter)
  have c: "(version_of r, cell_of r) \<noteq> (version_of r', cell_of r')"
    if "r \<in> set (forward_additions srv w new old)" "r' \<in> set (forward_deletions w new old)" for r r'
  proof -
    from that(1) obtain c x where r: "r = (w, c, Some x)" "(c, x) \<in> set new"
      unfolding forward_additions_mem by blast
    from that(2) obtain c' x' where r': "r' = (w, c', None)" "c' \<notin> fst ` set new"
      unfolding forward_deletions_mem by blast
    have "c \<in> fst ` set new" using r(2) by force
    then show ?thesis using r' by (auto simp: r cell_of_def)
  qed
  have "(\<lambda>r. (version_of r, cell_of r)) ` set (forward_additions srv w new old) \<inter>
        (\<lambda>r. (version_of r, cell_of r)) ` set (forward_deletions w new old) = {}"
    using c by blast
  then show ?thesis using a b by (simp add: distinct_append)
qed

lemma forward_rows_cells:
  assumes "r \<in> set (forward_additions srv w new old @ forward_deletions w new old)"
  shows "version_of r = w" and "cell_of r \<in> fst ` set new \<union> fst ` set old"
proof -
  from assms consider "r \<in> set (forward_additions srv w new old)" | "r \<in> set (forward_deletions w new old)"
    by auto
  then have "version_of r = w \<and> cell_of r \<in> fst ` set new \<union> fst ` set old"
  proof cases
    case 1
    then obtain c x where "r = (w, c, Some x)" "(c, x) \<in> set new"
      unfolding forward_additions_mem by blast
    then show ?thesis by (force simp: version_of_def cell_of_def)
  next
    case 2
    then obtain c x where "r = (w, c, None)" "(c, x) \<in> set old"
      unfolding forward_deletions_mem by blast
    then show ?thesis by (force simp: version_of_def cell_of_def)
  qed
  then show "version_of r = w" and "cell_of r \<in> fst ` set new \<union> fst ` set old" by simp_all
qed

lemma select_latest_cell_in_pools:
  assumes "db_ok d" and "c \<in> fst ` set (select_latest (raw_diffs d) u)"
  shows "cell_in_pools d c"
proof -
  from assms(2) obtain x where "(c, x) \<in> set (select_latest (raw_diffs d) u)" by auto
  from select_latest_row_of[OF this] obtain r where
    r: "r \<in> set (raw_diffs d)" "cell_of r = c" by blast
  then show ?thesis using assms(1) by (auto simp: db_ok_def)
qed

lemma cell_in_pools_cong:
  assumes "measurement_type_pool a = measurement_type_pool b" "location_pool a = location_pool b"
    "week_pool a = week_pool b"
  shows "cell_in_pools a c = cell_in_pools b c"
  by (simp add: cell_in_pools_def assms)

text \<open>
  The only statements of \<open>record_long_raw\<close> that can raise on tables that satisfy their
  constraints are the insertion into the staging table and the registration of the
  version.
\<close>

lemma transaction_succeeds:
  assumes ok: "db_ok d" and st: "insert_parsed srv [] (stage lr) = Inr parsed"
    and fresh: "stamp lr \<notin> set (raw_version_list d)"
  shows "\<exists>d'. record_long_raw_transaction srv lr d = Inr d'"
proof -
  let ?v = "stamp lr"
  let ?previous = "select_latest (raw_diffs d) ?v"
  let ?nvia = "next_version (raw_version_list d) ?v"
  let ?next = "case ?nvia of None \<Rightarrow> [] | Some n \<Rightarrow> select_latest (raw_diffs d) n"
  let ?d1 = "d\<lparr>raw_version_list := raw_version_list d @ [?v]\<rparr>"
  let ?d2 = "intern_all srv parsed ?d1"
  have rs: "reconstruct_states srv lr d = Inr (parsed, ?previous, ?nvia, ?next)"
    using ok st by (rule reconstruct_states_succeeds)
  have rv: "register_version ?v d = Inr ?d1" using fresh by (simp add: register_version_def)
  have ok1: "db_ok ?d1" using ok rv by (rule register_version_ok)
  have ok2: "db_ok ?d2" using ok1 by (rule intern_all_ok)
  from join_pools_intern_all obtain joined where j: "join_pools srv ?d2 parsed = Inr joined" by blast
  note J = join_pools_Inr[OF j]
  have dk: "distinct (map (\<lambda>r. (version_of r, cell_of r)) (raw_diffs d))"
    using ok by (simp add: db_ok_def)
  have dj: "distinct (map fst joined)"
    using ok2 J staged_rows(1)[OF st] by (intro joined_distinct[of ?d2 srv parsed]) (simp_all add: db_ok_def)
  have jfit: "length x \<le> 255" if "(c, x) \<in> set joined" for c x
    using joined_values_fit[OF J staged_rows(2)[OF st] that] .
  have jcell: "cell_in_pools ?d2 c" if "c \<in> fst ` set joined" for c
    using that joined_cell_in_pools[OF J] by auto
  have ocell: "cell_in_pools ?d2 c" if "c \<in> fst ` set (select_latest (raw_diffs d) u)" for c u
  proof -
    have "cell_in_pools d c" using ok that by (rule select_latest_cell_in_pools)
    then have "cell_in_pools ?d1 c" by (simp add: cell_in_pools_def)
    then show ?thesis by (rule cell_in_pools_intern_all)
  qed
  let ?F = "forward_additions srv ?v joined ?previous @ forward_deletions ?v joined ?previous"
  let ?d4 = "?d2\<lparr>raw_diffs := raw_diffs ?d2 @ ?F\<rparr>"
  have i4: "insert_diffs srv ?F ?d2 = Inr ?d4"
  proof (rule insert_diffs_succeeds)
    show "distinct (map (\<lambda>r. (version_of r, cell_of r)) ?F)"
      using dj select_latest_distinct[OF dk] by (rule forward_rows_distinct)
    fix r assume r: "r \<in> set ?F"
    note C = forward_rows_cells[OF r]
    have 1: "(version_of r, cell_of r) \<notin> set (map (\<lambda>r'. (version_of r', cell_of r')) (raw_diffs ?d2))"
    proof
      assume "(version_of r, cell_of r) \<in> set (map (\<lambda>r'. (version_of r', cell_of r')) (raw_diffs ?d2))"
      then obtain r' where "r' \<in> set (raw_diffs d)" "version_of r' = ?v"
        using C(1) by (auto simp: intern_all_fields)
      then show False using ok fresh by (auto simp: db_ok_def)
    qed
    have 2: "version_of r \<in> set (raw_version_list ?d2)" using C(1) by (simp add: intern_all_fields)
    have 3: "cell_in_pools ?d2 (cell_of r)" using C(2) jcell ocell by blast
    have 4: "fits_row r" using forward_rows_fit[of joined srv ?v ?previous] jfit r by blast
    show "(version_of r, cell_of r) \<notin> set (map (\<lambda>r'. (version_of r', cell_of r')) (raw_diffs ?d2)) \<and>
           version_of r \<in> set (raw_version_list ?d2) \<and> cell_in_pools ?d2 (cell_of r) \<and> fits_row r"
      using 1 2 3 4 by blast
  qed
  have rd: "\<exists>d'. record_diffs srv ?v parsed ?previous ?nvia ?next ?d1 = Inr d'"
  proof (cases ?nvia)
    case None
    have "record_diffs srv ?v parsed ?previous None [] ?d1 = Inr ?d4"
      unfolding record_diffs_def Let_def using j i4[unfolded insert_diffs_append]
      by (auto simp: bind_def split: sum.splits)
    then show ?thesis unfolding None by auto
  next
    case (Some n)
    let ?nx = "select_latest (raw_diffs d) n"
    let ?G = "forward_additions srv n ?nx joined @ forward_deletions n ?nx joined"
    let ?d5 = "delete_diffs_at n ?d4"
    note N = next_version_Some[OF Some]
    have i6: "insert_diffs srv ?G ?d5 = Inr (?d5\<lparr>raw_diffs := raw_diffs ?d5 @ ?G\<rparr>)"
    proof (rule insert_diffs_succeeds)
      show "distinct (map (\<lambda>r. (version_of r, cell_of r)) ?G)"
        using select_latest_distinct[OF dk] dj by (rule forward_rows_distinct)
      fix r assume r: "r \<in> set ?G"
      note C = forward_rows_cells[OF r]
      have 1: "(version_of r, cell_of r) \<notin> set (map (\<lambda>r'. (version_of r', cell_of r')) (raw_diffs ?d5))"
        using C(1) by (auto simp: delete_diffs_at_def)
      have 2: "version_of r \<in> set (raw_version_list ?d5)"
        using C(1) N(1) by (simp add: delete_diffs_at_def intern_all_fields)
      have "cell_in_pools ?d2 (cell_of r)" using C(2) jcell ocell by blast
      then have 3: "cell_in_pools ?d5 (cell_of r)"
        by (simp add: cell_in_pools_def delete_diffs_at_def)
      have 4: "fits_row r"
        using forward_rows_fit[of ?nx srv n joined] select_latest_fit[OF ok] r by blast
      show "(version_of r, cell_of r) \<notin> set (map (\<lambda>r'. (version_of r', cell_of r')) (raw_diffs ?d5)) \<and>
           version_of r \<in> set (raw_version_list ?d5) \<and> cell_in_pools ?d5 (cell_of r) \<and> fits_row r"
        using 1 2 3 4 by blast
    qed
    have "record_diffs srv ?v parsed ?previous (Some n) ?nx ?d1 = Inr (?d5\<lparr>raw_diffs := raw_diffs ?d5 @ ?G\<rparr>)"
      unfolding record_diffs_def Let_def
      using j i4[unfolded insert_diffs_append] i6[unfolded insert_diffs_append]
      by (auto simp: bind_def split: sum.splits)
    then show ?thesis unfolding Some by auto
  qed
  then obtain d' where "record_diffs srv ?v parsed ?previous ?nvia ?next ?d1 = Inr d'" by blast
  then have "record_long_raw_transaction srv lr d = Inr d'"
    unfolding record_long_raw_transaction_def rs by (simp add: bind_def rv)
  then show ?thesis by blast
qed

section \<open>The states before and after a recorded snapshot\<close>

lemma db_ok_versions:
  assumes "db_ok d" and "r \<in> set (raw_diffs d)"
  shows "version_of r \<in> set (raw_version_list d)"
  using assms by (simp add: db_ok_def)

lemma db_ok_key_unique: "db_ok d \<Longrightarrow> key_unique (set (raw_diffs d))"
  by (rule key_unique_distinct) (simp add: db_ok_def)

lemma key_unique_subset: "key_unique D \<Longrightarrow> E \<subseteq> D \<Longrightarrow> key_unique E"
  unfolding key_unique_def by blast

text \<open>
  The rows of the diffs after a successful transaction, as a set: the rows it found,
  without those at the next version; the rows of the snapshot against the previous state;
  the rows of the next state against the snapshot.
\<close>

lemma transaction_rows:
  assumes ok: "db_ok d" and tx: "record_long_raw_transaction srv lr d = Inr d'"
  shows "\<exists>parsed joined. insert_parsed srv [] (stage lr) = Inr parsed \<and>
     join_pools srv d' parsed = Inr joined \<and> distinct (map fst joined) \<and>
     (\<forall>r. r \<in> set (raw_diffs d') \<longleftrightarrow>
        (r \<in> set (raw_diffs d) \<and> Some (version_of r) \<noteq> next_version (raw_version_list d) (stamp lr)) \<or>
        r \<in> diff_rows (weight srv) (stamp lr) (state_at (set (raw_diffs d)) (stamp lr)) (set joined) \<or>
        (\<exists>n. next_version (raw_version_list d) (stamp lr) = Some n \<and>
           r \<in> diff_rows (weight srv) n (set joined) (state_at (set (raw_diffs d)) n)))"
proof -
  let ?v = "stamp lr"
  let ?P = "select_latest (raw_diffs d) ?v"
  from transaction_diffs[OF ok tx] obtain parsed joined where
    st: "insert_parsed srv [] (stage lr) = Inr parsed"
    and j: "join_pools srv d' parsed = Inr joined"
    and dd: "(case next_version (raw_version_list d) ?v of
        None \<Rightarrow> raw_diffs d' = raw_diffs d @ forward_additions srv ?v joined ?P @ forward_deletions ?v joined ?P
      | Some n \<Rightarrow> raw_diffs d' = filter (\<lambda>r. version_of r \<noteq> n) (raw_diffs d
           @ forward_additions srv ?v joined ?P @ forward_deletions ?v joined ?P)
           @ forward_additions srv n (select_latest (raw_diffs d) n) joined
           @ forward_deletions n (select_latest (raw_diffs d) n) joined)"
    by blast
  have ok': "db_ok d'" using ok tx by (rule transaction_ok)
  have dj: "distinct (map fst joined)"
    using ok' join_pools_Inr[OF j] staged_rows(1)[OF st]
    by (intro joined_distinct[of d' srv parsed]) (simp_all add: db_ok_def)
  let ?F = "diff_rows (weight srv) ?v (state_at (set (raw_diffs d)) ?v) (set joined)"
  have F: "set (forward_additions srv ?v joined ?P @ forward_deletions ?v joined ?P) = ?F"
    using forward_rows_set[of srv ?v joined ?P] by (simp add: select_latest_set)
  have rows: "r \<in> set (raw_diffs d') \<longleftrightarrow>
        (r \<in> set (raw_diffs d) \<and> Some (version_of r) \<noteq> next_version (raw_version_list d) ?v) \<or>
        r \<in> ?F \<or>
        (\<exists>n. next_version (raw_version_list d) ?v = Some n \<and>
           r \<in> diff_rows (weight srv) n (set joined) (state_at (set (raw_diffs d)) n))" for r
  proof (cases "next_version (raw_version_list d) ?v")
    case None
    then have "raw_diffs d' = raw_diffs d @ forward_additions srv ?v joined ?P @ forward_deletions ?v joined ?P"
      using dd by simp
    then have "set (raw_diffs d') = set (raw_diffs d) \<union> ?F" using F by simp
    then show ?thesis unfolding None by simp
  next
    case (Some n)
    let ?N = "select_latest (raw_diffs d) n"
    have G: "set (forward_additions srv n ?N joined @ forward_deletions n ?N joined) =
        diff_rows (weight srv) n (set joined) (state_at (set (raw_diffs d)) n)"
      using forward_rows_set[of srv n ?N joined] by (simp add: select_latest_set)
    have "raw_diffs d' = filter (\<lambda>r. version_of r \<noteq> n)
            (raw_diffs d @ forward_additions srv ?v joined ?P @ forward_deletions ?v joined ?P)
           @ (forward_additions srv n ?N joined @ forward_deletions n ?N joined)"
      using dd Some by simp
    then have s: "set (raw_diffs d') = {r \<in> set (raw_diffs d) \<union> ?F. version_of r \<noteq> n} \<union>
        diff_rows (weight srv) n (set joined) (state_at (set (raw_diffs d)) n)"
      unfolding G[symmetric] F[symmetric] by (simp only: set_append set_filter)
    have vn: "version_of r \<noteq> n" if "r \<in> ?F"
      using diff_rows_version[OF that] next_version_Some(2)[OF Some] by order
    show ?thesis unfolding Some s using vn by auto
  qed
  show ?thesis using st j dj rows by blast
qed

lemma transaction_states:
  assumes ok: "db_ok d" and tx: "record_long_raw_transaction srv lr d = Inr d'"
    and st: "insert_parsed srv [] (stage lr) = Inr parsed"
    and j: "join_pools srv d' parsed = Inr joined"
  shows "\<And>u. u < stamp lr \<Longrightarrow> state_at (set (raw_diffs d')) u = state_at (set (raw_diffs d)) u"
    and "\<And>u. stamp lr \<le> u \<Longrightarrow> (\<And>n. next_version (raw_version_list d) (stamp lr) = Some n \<Longrightarrow> u < n) \<Longrightarrow>
           state_at (set (raw_diffs d')) u =
             merge_states (weight srv) (state_at (set (raw_diffs d)) (stamp lr)) (set joined)"
    and "\<And>u n. next_version (raw_version_list d) (stamp lr) = Some n \<Longrightarrow> n \<le> u \<Longrightarrow>
           state_equiv (weight srv) (state_at (set (raw_diffs d')) u) (state_at (set (raw_diffs d)) u)"
proof -
  let ?v = "stamp lr" and ?W = "weight srv"
  let ?D = "set (raw_diffs d)" and ?D' = "set (raw_diffs d')"
  let ?J = "set joined"
  let ?P = "state_at ?D ?v"
  let ?nv = "next_version (raw_version_list d) ?v"
  from transaction_rows[OF ok tx] st j have
    dj: "distinct (map fst joined)"
    and rows: "\<And>r. r \<in> ?D' \<longleftrightarrow> (r \<in> ?D \<and> Some (version_of r) \<noteq> ?nv) \<or>
        r \<in> diff_rows ?W ?v ?P ?J \<or>
        (\<exists>n. ?nv = Some n \<and> r \<in> diff_rows ?W n ?J (state_at ?D n))"
    by auto
  from transaction_diffs[OF ok tx] have fresh: "?v \<notin> set (raw_version_list d)" by blast
  have sj: "single_valued_rows ?J" using dj by (rule distinct_fst_single)
  have ku: "key_unique ?D" using ok by (rule db_ok_key_unique)
  have ku': "key_unique ?D'" using transaction_ok[OF ok tx] by (rule db_ok_key_unique)
  have ne: "version_of r \<noteq> ?v" if "r \<in> ?D" for r
    using db_ok_versions[OF ok that] fresh by auto
  have low: "version_of r < ?v" if "r \<in> ?D" "version_of r \<le> ?v" for r
    using ne[OF that(1)] that(2) by order
  have none_after: "version_of r < ?v" if "r \<in> ?D" "?nv = None" for r
  proof -
    have "\<not> ?v < version_of r" using that(2) db_ok_versions[OF ok that(1)] by (rule next_version_None)
    then show ?thesis using ne[OF that(1)] by order
  qed
  have gap: "version_of r < ?v \<or> n \<le> version_of r" if "r \<in> ?D" "?nv = Some n" for r n
  proof (cases "?v < version_of r")
    case True
    then show ?thesis using next_version_Some(3)[OF that(2) db_ok_versions[OF ok that(1)]] by blast
  next
    case False
    then have "version_of r < ?v" using ne[OF that(1)] by order
    then show ?thesis by simp
  qed
  show a: "state_at ?D' u = state_at ?D u" if uv: "u < ?v" for u
  proof (rule state_at_cong)
    fix r assume le: "version_of r \<le> u"
    have 1: "r \<notin> diff_rows ?W ?v ?P ?J"
    proof
      assume "r \<in> diff_rows ?W ?v ?P ?J"
      then have "version_of r = ?v" by (rule diff_rows_version)
      then show False using le uv by order
    qed
    have 2: "r \<notin> diff_rows ?W n ?J (state_at ?D n)" if "?nv = Some n" for n
    proof
      assume "r \<in> diff_rows ?W n ?J (state_at ?D n)"
      then have "version_of r = n" by (rule diff_rows_version)
      then show False using le uv next_version_Some(2)[OF that] by order
    qed
    have 3: "Some (version_of r) \<noteq> ?nv"
    proof
      assume "Some (version_of r) = ?nv"
      then have "?nv = Some (version_of r)" by simp
      from next_version_Some(2)[OF this] show False using le uv by order
    qed
    show "r \<in> ?D' \<longleftrightarrow> r \<in> ?D" unfolding rows using 1 2 3 by blast
  qed
  show b: "state_at ?D' u = merge_states ?W ?P ?J"
    if vu: "?v \<le> u" and un: "\<And>n. ?nv = Some n \<Longrightarrow> u < n" for u
  proof (rule state_after_diff[where ?D0.0 = ?D and p = ?v and w = ?v])
    show "single_valued_rows ?J" by (rule sj)
    show "key_unique ?D" by (rule ku)
    show "version_of r < ?v" if "r \<in> ?D" "version_of r \<le> ?v" for r using that by (rule low)
    show "?v \<le> u" by (rule vu)
    fix r
    have 1: "version_of r \<le> u" if "r \<in> diff_rows ?W ?v ?P ?J"
      using diff_rows_version[OF that] vu by order
    have 5: "version_of r \<le> u" if "version_of r \<le> ?v" using that vu by order
    show "(r \<in> ?D' \<and> version_of r \<le> u) \<longleftrightarrow>
            (r \<in> ?D \<and> version_of r \<le> ?v) \<or> r \<in> diff_rows ?W ?v ?P ?J"
    proof (cases ?nv)
      case None
      have 3: "version_of r \<le> ?v" if "r \<in> ?D"
        using none_after[OF that None] by order
      show ?thesis unfolding rows None using 1 3 5 by auto
    next
      case (Some n)
      note N = next_version_Some[OF Some]
      have 2: "\<not> version_of r \<le> u" if "r \<in> diff_rows ?W n ?J (state_at ?D n)"
        using diff_rows_version[OF that] un[OF Some] by order
      have 3: "version_of r \<le> ?v" if "r \<in> ?D" "version_of r \<le> u"
      proof -
        from gap[OF that(1) Some] show ?thesis
        proof
          assume "version_of r < ?v" then show ?thesis by order
        next
          assume "n \<le> version_of r" then show ?thesis using that(2) un[OF Some] by order
        qed
      qed
      have 4: "version_of r \<noteq> n" if "version_of r \<le> ?v"
        using that N(2) by order
      show ?thesis unfolding rows Some using 1 2 3 4 5 by auto
    qed
  qed
  show "state_equiv ?W (state_at ?D' u) (state_at ?D u)" if nv: "?nv = Some n" and nu: "n \<le> u" for u n
  proof (rule state_at_later_equiv[where n = n])
    note N = next_version_Some[OF nv]
    show "n \<le> u" by (rule nu)
    show "r \<in> ?D' \<longleftrightarrow> r \<in> ?D" if nr: "n < version_of r" for r
    proof -
      have 1: "r \<notin> diff_rows ?W ?v ?P ?J"
      proof
        assume "r \<in> diff_rows ?W ?v ?P ?J"
        then have "version_of r = ?v" by (rule diff_rows_version)
        then show False using nr N(2) by order
      qed
      have 2: "r \<notin> diff_rows ?W n ?J (state_at ?D n)"
      proof
        assume "r \<in> diff_rows ?W n ?J (state_at ?D n)"
        then have "version_of r = n" by (rule diff_rows_version)
        then show False using nr by order
      qed
      have 3: "version_of r \<noteq> n" using nr by order
      show ?thesis unfolding rows nv using 1 2 3 by auto
    qed
    let ?D1 = "{r \<in> ?D. version_of r \<noteq> n} \<union> diff_rows ?W ?v ?P ?J"
    let ?M = "merge_states ?W ?P ?J"
    let ?N = "state_at ?D n"
    have sub: "?D1 \<subseteq> ?D'" using rows nv by auto
    have m: "state_at ?D1 ?v = ?M"
    proof (rule state_after_diff[where ?D0.0 = ?D and p = ?v and w = ?v])
      show "single_valued_rows ?J" by (rule sj)
      show "key_unique ?D" by (rule ku)
      show "version_of r < ?v" if "r \<in> ?D" "version_of r \<le> ?v" for r using that by (rule low)
      show "?v \<le> ?v" by simp
      fix r
      have 1: "version_of r \<le> ?v" if "r \<in> diff_rows ?W ?v ?P ?J"
        using diff_rows_version[OF that] by simp
      have 4: "version_of r \<noteq> n" if "version_of r \<le> ?v" using that N(2) by order
      show "(r \<in> ?D1 \<and> version_of r \<le> ?v) \<longleftrightarrow>
            (r \<in> ?D \<and> version_of r \<le> ?v) \<or> r \<in> diff_rows ?W ?v ?P ?J"
        using 1 4 by auto
    qed
    have "state_at ?D' n = merge_states ?W (state_at ?D1 ?v) ?N"
    proof (rule state_after_diff[where ?D0.0 = ?D1 and p = ?v and w = n])
      show "single_valued_rows ?N" using ku by (rule state_at_single)
      show "key_unique ?D1" using ku' sub by (rule key_unique_subset)
      show "version_of r < n" if "r \<in> ?D1" "version_of r \<le> ?v" for r using that(2) N(2) by order
      show "n \<le> n" by simp
      fix r
      have e: "diff_rows ?W n (state_at ?D1 ?v) ?N = diff_rows ?W n ?J ?N"
        unfolding m using merge_states_equiv by (rule diff_rows_equiv)
      have 1: "version_of r \<le> n" if "r \<in> diff_rows ?W n ?J ?N"
        using diff_rows_version[OF that] by simp
      have 2: "version_of r \<le> ?v" if "r \<in> diff_rows ?W ?v ?P ?J"
        using diff_rows_version[OF that] by simp
      have 3: "version_of r \<le> ?v" if "r \<in> ?D" "version_of r \<noteq> n" "version_of r \<le> n"
      proof -
        from gap[OF that(1) nv] show ?thesis
        proof
          assume "version_of r < ?v" then show ?thesis by order
        next
          assume "n \<le> version_of r" then show ?thesis using that(2,3) by order
        qed
      qed
      have 4: "version_of r \<le> n" if "version_of r \<le> ?v" using that N(2) by order
      have 5: "version_of r \<noteq> n" if "version_of r \<le> ?v" using that N(2) by order
      show "(r \<in> ?D' \<and> version_of r \<le> n) \<longleftrightarrow>
            (r \<in> ?D1 \<and> version_of r \<le> ?v) \<or> r \<in> diff_rows ?W n (state_at ?D1 ?v) ?N"
        unfolding e rows nv using 1 2 3 4 5 by auto
    qed
    then show "state_equiv ?W (state_at ?D' n) ?N" using merge_states_equiv by simp
  qed
qed

section \<open>Sequences of snapshots\<close>








section \<open>Failure, duplicates and the frame of \<open>record_long_raw\<close>\<close>

lemma db_ok_ex_db_second: "db_ok ex_db_second"
proof -
  have "db_ok ex_db_first" unfolding ex_db_first_def using db_ok_empty by (rule record_long_raw_ok)
  then show ?thesis unfolding ex_db_second_def by (rule record_long_raw_ok)
qed



text \<open>
  C4: a call of \<open>record_long_raw\<close> on tables that satisfy their constraints either raises
  and leaves every stored table as it was, or returns with all its effects: the version
  is in the version list, every string of the snapshot has its id in the pools (the join
  with the pools finds them), the diffs at the version are the rows of the snapshot
  against the previous state, and, when there is a next version, the diffs at the next
  version are the rows of the next state against the snapshot.
\<close>

theorem record_long_raw_atomic:
  assumes "db_ok d"
  shows "(\<exists>e. record_long_raw srv lr d = (Some e, d)) \<or>
         (\<exists>d' parsed joined. record_long_raw srv lr d = (None, d') \<and>
            insert_parsed srv [] (stage lr) = Inr parsed \<and> join_pools srv d' parsed = Inr joined \<and>
            raw_version_list d' = raw_version_list d @ [stamp lr] \<and>
            {r \<in> set (raw_diffs d'). version_of r = stamp lr} =
              diff_rows (weight srv) (stamp lr) (state_at (set (raw_diffs d)) (stamp lr)) (set joined) \<and>
            (\<forall>n. next_version (raw_version_list d) (stamp lr) = Some n \<longrightarrow>
               {r \<in> set (raw_diffs d'). version_of r = n} =
                 diff_rows (weight srv) n (set joined) (state_at (set (raw_diffs d)) n)))"
proof (cases "record_long_raw_transaction srv lr d")
  case (Inl e)
  then show ?thesis by (simp add: record_long_raw_def)
next
  case (Inr t)
  let ?v = "stamp lr"
  let ?d' = "create_point_tables t"
  let ?nv = "next_version (raw_version_list d) ?v"
  let ?F = "diff_rows (weight srv) ?v (state_at (set (raw_diffs d)) ?v)"
  have r: "record_long_raw srv lr d = (None, ?d')" using Inr by (simp add: record_long_raw_def)
  from transaction_rows[OF assms Inr] obtain parsed joined where
    st: "insert_parsed srv [] (stage lr) = Inr parsed"
    and j: "join_pools srv t parsed = Inr joined"
    and rows: "\<And>r. r \<in> set (raw_diffs t) \<longleftrightarrow>
        (r \<in> set (raw_diffs d) \<and> Some (version_of r) \<noteq> ?nv) \<or> r \<in> ?F (set joined) \<or>
        (\<exists>n. ?nv = Some n \<and> r \<in> diff_rows (weight srv) n (set joined) (state_at (set (raw_diffs d)) n))"
    by blast
  from transaction_diffs[OF assms Inr] have
    vl: "raw_version_list t = raw_version_list d @ [?v]" and fresh: "?v \<notin> set (raw_version_list d)"
    by blast+
  have j': "join_pools srv ?d' parsed = Inr joined"
    using join_pools_cong[of ?d' t srv parsed] j by (simp add: create_point_tables_fields)
  have ne: "version_of r \<noteq> ?v" if "r \<in> set (raw_diffs d)" for r
    using db_ok_versions[OF assms that] fresh by auto
  have at_v: "{r \<in> set (raw_diffs ?d'). version_of r = ?v} = ?F (set joined)"
  proof (rule set_eqI)
    fix r
    have 1: "version_of r = ?v" if "r \<in> ?F (set joined)" using that by (rule diff_rows_version)
    have 2: "version_of r \<noteq> ?v"
      if "?nv = Some n" "r \<in> diff_rows (weight srv) n (set joined) (state_at (set (raw_diffs d)) n)" for n
      using diff_rows_version[OF that(2)] next_version_Some(2)[OF that(1)] by order
    show "r \<in> {r \<in> set (raw_diffs ?d'). version_of r = ?v} \<longleftrightarrow> r \<in> ?F (set joined)"
      unfolding create_point_tables_fields using rows[of r] ne[of r] 1 2 by blast
  qed
  have at_n: "{r \<in> set (raw_diffs ?d'). version_of r = n} =
                 diff_rows (weight srv) n (set joined) (state_at (set (raw_diffs d)) n)"
    if nv: "?nv = Some n" for n
  proof (rule set_eqI)
    fix r
    have 1: "version_of r \<noteq> n" if "r \<in> ?F (set joined)"
      using diff_rows_version[OF that] next_version_Some(2)[OF nv] by order
    have 2: "version_of r = n"
      if "r \<in> diff_rows (weight srv) n (set joined) (state_at (set (raw_diffs d)) n)"
      using that by (rule diff_rows_version)
    show "r \<in> {r \<in> set (raw_diffs ?d'). version_of r = n} \<longleftrightarrow>
            r \<in> diff_rows (weight srv) n (set joined) (state_at (set (raw_diffs d)) n)"
      unfolding create_point_tables_fields using rows[of r] 1 2 nv by auto
  qed
  have "raw_version_list ?d' = raw_version_list d @ [?v]"
    using vl by (simp add: create_point_tables_fields)
  then show ?thesis using r st j' at_v at_n by blast
qed

theorem record_long_raw_atomic_witness:
  "(\<exists>e. record_long_raw ex_server ex_between ex_db_second = (Some e, ex_db_second)) \<or>
   (\<exists>d' parsed joined. record_long_raw ex_server ex_between ex_db_second = (None, d') \<and>
      insert_parsed ex_server [] (stage ex_between) = Inr parsed \<and>
      join_pools ex_server d' parsed = Inr joined \<and>
      raw_version_list d' = raw_version_list ex_db_second @ [stamp ex_between] \<and>
      {r \<in> set (raw_diffs d'). version_of r = stamp ex_between} =
        diff_rows (weight ex_server) (stamp ex_between)
          (state_at (set (raw_diffs ex_db_second)) (stamp ex_between)) (set joined) \<and>
      (\<forall>n. next_version (raw_version_list ex_db_second) (stamp ex_between) = Some n \<longrightarrow>
         {r \<in> set (raw_diffs d'). version_of r = n} =
           diff_rows (weight ex_server) n (set joined) (state_at (set (raw_diffs ex_db_second)) n)))"
  using db_ok_ex_db_second by (rule record_long_raw_atomic)





text \<open>
  C7: a successful call of \<open>record_long_raw\<close> on tables that satisfy their constraints
  leaves the diffs at every version other than the recorded one and the next one as they
  were, row by row and in their order; when there is no next version it only appends rows
  to the diffs. It appends the version to the version list and appends rows to the
  pools: the versions and the pool rows it found are unchanged. (A call that raises
  changes nothing.)
\<close>

theorem record_long_raw_frame:
  assumes "db_ok d" and "record_long_raw srv lr d = (None, d')"
  shows "filter (\<lambda>r. version_of r \<noteq> stamp lr \<and>
                      Some (version_of r) \<noteq> next_version (raw_version_list d) (stamp lr)) (raw_diffs d')
         = filter (\<lambda>r. version_of r \<noteq> stamp lr \<and>
                      Some (version_of r) \<noteq> next_version (raw_version_list d) (stamp lr)) (raw_diffs d) \<and>
         (next_version (raw_version_list d) (stamp lr) = None \<longrightarrow>
            (\<exists>rs. raw_diffs d' = raw_diffs d @ rs)) \<and>
         raw_version_list d' = raw_version_list d @ [stamp lr] \<and>
         (\<exists>q. measurement_type_pool d' = measurement_type_pool d @ q) \<and>
         (\<exists>q. location_pool d' = location_pool d @ q) \<and>
         (\<exists>q. week_pool d' = week_pool d @ q)"
proof -
  let ?v = "stamp lr"
  let ?nv = "next_version (raw_version_list d) ?v"
  let ?Q = "\<lambda>r. version_of r \<noteq> ?v \<and> Some (version_of r) \<noteq> ?nv"
  let ?P = "select_latest (raw_diffs d) ?v"
  from assms(2) obtain t where tx: "record_long_raw_transaction srv lr d = Inr t"
    and d': "d' = create_point_tables t" unfolding record_long_raw_None by blast
  note T = transaction_diffs[OF assms(1) tx]
  have vl: "raw_version_list t = raw_version_list d @ [?v]"
    using T by (elim exE conjE)
  have p1: "\<exists>q. measurement_type_pool t = measurement_type_pool d @ q"
    using T by (elim exE conjE) (simp only: intern_pool_prefix)
  have p2: "\<exists>q. location_pool t = location_pool d @ q"
    using T by (elim exE conjE) (simp only: intern_pool_prefix)
  have p3: "\<exists>q. week_pool t = week_pool d @ q"
    using T by (elim exE conjE) (simp only: intern_pool_prefix)
  from T obtain joined where
    dd: "(case ?nv of
        None \<Rightarrow> raw_diffs t = raw_diffs d @ forward_additions srv ?v joined ?P @ forward_deletions ?v joined ?P
      | Some n \<Rightarrow> raw_diffs t = filter (\<lambda>r. version_of r \<noteq> n) (raw_diffs d
           @ forward_additions srv ?v joined ?P @ forward_deletions ?v joined ?P)
           @ forward_additions srv n (select_latest (raw_diffs d) n) joined
           @ forward_deletions n (select_latest (raw_diffs d) n) joined)"
    by (elim exE conjE) (rule that, assumption)
  have F: "filter ?Q (forward_additions srv ?v joined ?P @ forward_deletions ?v joined ?P) = []"
    using forward_rows_cells(1)[of _ srv ?v joined ?P] by (auto simp: filter_empty_conv)
  have a: "filter ?Q (raw_diffs t) = filter ?Q (raw_diffs d)"
  proof (cases ?nv)
    case None
    then have "raw_diffs t = raw_diffs d @ (forward_additions srv ?v joined ?P @ forward_deletions ?v joined ?P)"
      using dd by simp
    then show ?thesis using F by (simp only: filter_append append_Nil2)
  next
    case (Some n)
    let ?N = "select_latest (raw_diffs d) n"
    have G: "filter ?Q (forward_additions srv n ?N joined @ forward_deletions n ?N joined) = []"
      using forward_rows_cells(1)[of _ srv n ?N joined] Some by (auto simp: filter_empty_conv)
    have Q: "filter ?Q (filter (\<lambda>r. version_of r \<noteq> n) xs) = filter ?Q xs" for xs
      unfolding filter_filter Some by (rule filter_cong) auto
    have "raw_diffs t = filter (\<lambda>r. version_of r \<noteq> n)
            (raw_diffs d @ (forward_additions srv ?v joined ?P @ forward_deletions ?v joined ?P))
           @ (forward_additions srv n ?N joined @ forward_deletions n ?N joined)"
      using dd Some by simp
    then have "filter ?Q (raw_diffs t) =
        filter ?Q (raw_diffs d @ (forward_additions srv ?v joined ?P @ forward_deletions ?v joined ?P))"
      using G Q by (simp only: filter_append append_Nil2)
    then show ?thesis using F by (simp only: filter_append append_Nil2)
  qed
  have b: "?nv = None \<longrightarrow> (\<exists>rs. raw_diffs t = raw_diffs d @ rs)" using dd by auto
  show ?thesis
    unfolding d' create_point_tables_fields
    using a b vl p1 p2 p3 by blast
qed

theorem record_long_raw_frame_witness:
  "filter (\<lambda>r. version_of r \<noteq> (2, 0) \<and> Some (version_of r) \<noteq> Some (3, 0)) (raw_diffs ex_db_between)
     = [((1, 0), (1, 1, 1), Some ''5'')] \<and>
   raw_version_list ex_db_between = [(1, 0), (3, 0), (2, 0)]"
proof -
  have 1: "record_long_raw ex_server ex_between ex_db_second = (None, ex_db_between)" by code_simp
  have 2: "next_version (raw_version_list ex_db_second) (2, 0) = Some (3, 0)" by code_simp
  have 3: "stamp ex_between = (2, 0)" by code_simp
  have 4: "filter (\<lambda>r. version_of r \<noteq> (2, 0) \<and> Some (version_of r) \<noteq> Some (3, 0)) (raw_diffs ex_db_second)
     = [((1, 0), (1, 1, 1), Some ''5'')]" by code_simp
  have 5: "raw_version_list ex_db_second @ [(2, 0)] = [(1, 0), (3, 0), (2, 0)]" by code_simp
  note F = record_long_raw_frame[OF db_ok_ex_db_second 1, unfolded 3, unfolded 2, unfolded 4 5]
  from F show ?thesis by blast
qed

section \<open>Empty values\<close>

text \<open>
  C9 (as stated, refuted): a snapshot whose cell has the empty string as its value is not
  rejected, whatever the server; the call succeeds and the empty string is recorded in
  the diffs.
\<close>

theorem empty_value_not_rejected:
  "\<forall>srv. record_long_raw srv ex_empty_value empty_db =
     (None, \<lparr> raw_version_list = [(1, 0)], measurement_type_pool = [(1, ''2012-13'')],
        location_pool = [(1, ''loc'')], week_pool = [(1, ''w1'')],
        raw_diffs = [((1, 0), (1, 1, 1), Some [])],
        point_version_list = Some [], point_diffs = Some [] \<rparr>)"
  by (simp add: record_long_raw_def record_long_raw_transaction_def reconstruct_states_def
      record_diffs_def register_version_def intern_all_def intern_pool_def insert_diff_def
      stage_def stamp_def ex_empty_value_def empty_db_def bind_def store_row_def nvarchar255_def
      parsed_key_def select_latest_def insert_state_table_def next_version_def
      forward_additions_def forward_deletions_def create_point_tables_def auto_increment_def
      List.map_filter_def version_of_def cell_of_def)

text \<open>
  C9 (amended): \<open>record_long_raw\<close> makes no test of a value for emptiness. When the
  tables satisfy their constraints, the version is new and the staging table accepts the
  snapshot (which depends on the lengths and the keys of its rows only), the call
  succeeds, and a cell that the staging table holds with the empty string as its value
  is in the state reconstructed at the recorded version, with the empty string or a value
  that the server finds equal to it.
\<close>

theorem empty_value_recorded:
  assumes "db_ok d" and "stamp lr \<notin> set (raw_version_list d)"
    and "insert_parsed srv [] (stage lr) = Inr parsed" and "(m, l, w, []) \<in> set parsed"
  shows "\<exists>d'. record_long_raw srv lr d = (None, d') \<and>
           (\<exists>mi li wi x. pool_id srv (measurement_type_pool d') m = Some mi \<and>
              pool_id srv (location_pool d') l = Some li \<and> pool_id srv (week_pool d') w = Some wi \<and>
              ((mi, li, wi), x) \<in> state_at (set (raw_diffs d')) (stamp lr) \<and>
              weight srv x = weight srv [])"
proof -
  let ?v = "stamp lr"
  from transaction_succeeds[OF assms(1,3,2)] obtain t where
    tx: "record_long_raw_transaction srv lr d = Inr t" by blast
  let ?d' = "create_point_tables t"
  have r: "record_long_raw srv lr d = (None, ?d')" using tx by (simp add: record_long_raw_def)
  from transaction_rows[OF assms(1) tx] assms(3) obtain joined where
    j: "join_pools srv t parsed = Inr joined" by auto
  from joined_row_mem2[OF join_pools_Inr[OF j] assms(4)] obtain c x0 where
    c: "(c, x0) \<in> set joined" "joined_row srv t (m, l, w, []) (c, x0)" by auto
  obtain mi li wi where ci: "c = (mi, li, wi)" by (cases c) auto
  have ids: "pool_id srv (measurement_type_pool t) m = Some mi"
    "pool_id srv (location_pool t) l = Some li" "pool_id srv (week_pool t) w = Some wi" "x0 = []"
    using c(2) by (simp_all add: joined_row_def ci)
  have "state_at (set (raw_diffs t)) ?v =
      merge_states (weight srv) (state_at (set (raw_diffs d)) ?v) (set joined)"
    using assms(1) tx assms(3) j
  proof (rule transaction_states(2))
    show "?v \<le> ?v" by simp
    show "?v < n" if "next_version (raw_version_list d) ?v = Some n" for n
      using that by (rule next_version_Some(2))
  qed
  then have "state_equiv (weight srv) (state_at (set (raw_diffs t)) ?v) (set joined)"
    using merge_states_equiv by simp
  from state_equivD2[OF this c(1)] obtain x where
    x: "(c, x) \<in> state_at (set (raw_diffs t)) ?v" "weight srv x = weight srv x0"
    using coveredE by blast
  have "pool_id srv (measurement_type_pool ?d') m = Some mi \<and>
      pool_id srv (location_pool ?d') l = Some li \<and> pool_id srv (week_pool ?d') w = Some wi \<and>
      ((mi, li, wi), x) \<in> state_at (set (raw_diffs ?d')) ?v \<and> weight srv x = weight srv []"
    using ids x by (simp add: create_point_tables_fields ci)
  then show ?thesis using r by blast
qed

theorem empty_value_recorded_witness:
  "\<exists>d'. record_long_raw ex_server ex_empty_value empty_db = (None, d') \<and>
     (\<exists>mi li wi x. pool_id ex_server (measurement_type_pool d') ''2012-13'' = Some mi \<and>
        pool_id ex_server (location_pool d') ''loc'' = Some li \<and>
        pool_id ex_server (week_pool d') ''w1'' = Some wi \<and>
        ((mi, li, wi), x) \<in> state_at (set (raw_diffs d')) (stamp ex_empty_value) \<and>
        weight ex_server x = weight ex_server [])"
proof (rule empty_value_recorded)
  show "db_ok empty_db" by (rule db_ok_empty)
  show "stamp ex_empty_value \<notin> set (raw_version_list empty_db)" by (simp add: empty_db_def)
  show "insert_parsed ex_server [] (stage ex_empty_value) = Inr [(''2012-13'', ''loc'', ''w1'', [])]"
    by code_simp
  show "(''2012-13'', ''loc'', ''w1'', []) \<in> set [(''2012-13'', ''loc'', ''w1'', [])]" by simp
qed

section \<open>The point projection\<close>

lemma update_point_transaction_Inr:
  assumes "update_point_transaction srv f py_int d = Inr d'"
  shows "\<exists>pvl pd ins pd'. point_version_list d = Some pvl \<and> point_diffs d = Some pd \<and>
     point_diff_insertion f py_int (raw_datatable_diff_selection d pvl) = Inr ins \<and>
     d' = d\<lparr>point_version_list := Some (pvl @ remdups (filter (\<lambda>v. v \<notin> set pvl) (raw_version_list d))),
            point_diffs := Some pd'\<rparr>"
proof -
  from assms obtain pvl pd where p: "point_version_list d = Some pvl" "point_diffs d = Some pd"
    unfolding update_point_transaction_def by (auto split: option.splits)
  from assms show ?thesis
    unfolding update_point_transaction_def p by (auto simp: bind_Inr Let_def)
qed

text \<open>
  C8 (amended): after a successful \<open>update_point\<close> the point version list holds the
  versions it held before and every version of the raw version list, whether or not a
  point diff was emitted at that version.
\<close>

theorem point_version_list_after_update:
  assumes "update_point srv f py_int d = (None, d')"
  shows "\<exists>pvl pvl'. point_version_list d = Some pvl \<and> point_version_list d' = Some pvl' \<and>
           set pvl' = set pvl \<union> set (raw_version_list d)"
proof -
  from assms have "update_point_transaction srv f py_int d = Inr d'"
    unfolding update_point_def by (auto split: sum.splits)
  then obtain pvl pd' where "point_version_list d = Some pvl"
    "d' = d\<lparr>point_version_list := Some (pvl @ remdups (filter (\<lambda>v. v \<notin> set pvl) (raw_version_list d))),
            point_diffs := Some pd'\<rparr>"
    using update_point_transaction_Inr by blast
  then show ?thesis by auto
qed

text \<open>
  C8 (as stated, refuted): the same snapshot recorded at versions \<open>(1, 0)\<close> and
  \<open>(2, 0)\<close> gives no raw diff at \<open>(2, 0)\<close>, hence no point diff there, yet
  \<open>update_point\<close> enters \<open>(2, 0)\<close> in the point version list.
\<close>

theorem point_version_list_untouched_version:
  "raw_diffs ex_db_repeat = [((1, 0), (1, 1, 1), Some ''5'')] \<and>
   update_point ex_server ex_epiweek ex_int ex_db_repeat =
     (None, ex_db_repeat\<lparr>point_version_list := Some [(1, 0), (2, 0)],
                          point_diffs := Some [((1, 0), 1, 201201, Some ''5'')]\<rparr>)"
  by code_simp

theorem point_version_list_after_update_witness:
  "\<exists>pvl pvl'. point_version_list ex_db_repeat = Some pvl \<and>
      point_version_list (snd (update_point ex_server ex_epiweek ex_int ex_db_repeat)) = Some pvl' \<and>
      set pvl' = set pvl \<union> set (raw_version_list ex_db_repeat)"
proof -
  have "update_point ex_server ex_epiweek ex_int ex_db_repeat =
          (None, snd (update_point ex_server ex_epiweek ex_int ex_db_repeat))"
    by code_simp
  then show ?thesis by (rule point_version_list_after_update)
qed

lemma point_diff_insertion_int:
  assumes "point_diff_insertion f py_int rows = Inr ins"
    and "(v, Some mt, li, wk, Some s) \<in> set rows" and "prog_match mt" and "s \<noteq> []"
  shows "py_int s \<noteq> None"
  using assms
proof (induction rows arbitrary: ins)
  case Nil
  then show ?case by simp
next
  case (Cons row rows)
  obtain v' mt' li' wk' nv' where row: "row = (v', mt', li', wk', nv')" by (cases row) auto
  from Cons.prems(1) obtain m' where m': "mt' = Some m'"
    unfolding row by (cases mt') auto
  from Cons.prems(1) obtain others where others: "point_diff_insertion f py_int rows = Inr others"
    unfolding row m' by (auto split: if_splits sum.splits option.splits)
  show ?case
  proof (cases "(v, Some mt, li, wk, Some s) = row")
    case True
    then have eq: "v' = v" "m' = mt" "li' = li" "wk' = wk" "nv' = Some s"
      using row m' by auto
    from Cons.prems(1) show ?thesis
      unfolding row m' eq using Cons.prems(3,4)
      by (auto split: option.splits sum.splits)
  next
    case False
    then have "(v, Some mt, li, wk, Some s) \<in> set rows" using Cons.prems(2) by auto
    then show ?thesis using Cons.IH[OF others] Cons.prems(3,4) by blast
  qed
qed

text \<open>
  C10: when a raw diff that \<open>update_point\<close> selects (its version is not in the point
  version list) has a measurement type matching the pattern and a \<open>new_value\<close> that is
  neither \<open>NULL\<close> nor empty, and \<open>int\<close> raises on that value, then \<open>update_point\<close>
  raises and the stored tables are as before: no point entry is committed. So a call of
  \<open>update_point\<close> that succeeds has found every such value accepted by \<open>int\<close>. This
  holds whatever the server, \<open>season_db_to_epiweek\<close> and \<open>int\<close> are.
\<close>

theorem update_point_int_conversion:
  assumes "r \<in> set (raw_diffs d)"
    and "pool_text (measurement_type_pool d) (fst (cell_of r)) = Some mt"
    and "prog_match mt"
    and "new_value r = Some s" and "s \<noteq> []" and "py_int s = None"
    and "point_version_list d = Some pvl" and "version_of r \<notin> set pvl"
  shows "\<exists>e. update_point srv f py_int d = (Some e, d)"
proof (cases "update_point_transaction srv f py_int d")
  case (Inl e)
  then show ?thesis by (simp add: update_point_def)
next
  case (Inr d')
  then obtain ins where ins: "point_diff_insertion f py_int (raw_datatable_diff_selection d pvl) = Inr ins"
    using update_point_transaction_Inr assms(7) by fastforce
  obtain v mi li wi x where r: "r = (v, (mi, li, wi), x)" by (cases r) auto
  have "(v, Some mt, li, pool_text (week_pool d) wi, Some s) \<in> set (raw_datatable_diff_selection d pvl)"
    unfolding raw_datatable_diff_selection_def using assms(1,2,4,8) r
    by (force simp: cell_of_def new_value_def version_of_def)
  then have "py_int s \<noteq> None"
    using point_diff_insertion_int[OF ins] assms(3,5) by blast
  then show ?thesis using assms(6) by simp
qed

theorem update_point_int_conversion_witness:
  "\<exists>e. update_point ex_server ex_epiweek ex_int ex_db_not_int = (Some e, ex_db_not_int)"
proof (rule update_point_int_conversion)
  show "((1, 0), (1, 1, 1), Some ''5x'') \<in> set (raw_diffs ex_db_not_int)" by code_simp
  show "pool_text (measurement_type_pool ex_db_not_int) (fst (cell_of ((1, 0), (1, 1, 1), Some ''5x''))) = Some ''2012-13''"
    by code_simp
  show "prog_match ''2012-13''" by code_simp
  show "new_value ((1, 0), (1, 1, 1), Some ''5x'') = Some ''5x''" by code_simp
  show "''5x'' \<noteq> []" by simp
  show "ex_int ''5x'' = None" by code_simp
  show "point_version_list ex_db_not_int = Some []" by code_simp
  show "version_of ((1, 0), (1, 1, 1), Some ''5x'') \<notin> set []" by simp
qed

section \<open>Reconstruction of the recorded snapshots\<close>








end
